theory Spec2Isabelle
  imports Complex_Main "HOL-Library.Sublist"
begin

section \<open>The essay writer of \<^verbatim>\<open>essay_writer_console.py\<close>\<close>

text \<open>
  The program drives five stage functions through a LangGraph state graph. It talks to
  three outside services: a text-completion endpoint (\<^verbatim>\<open>requests.post\<close>), the
  Tavily search client and Google's custom search (\<^verbatim>\<open>requests.get\<close>).

  The embedding makes every effect explicit.
  \<^item> The outside world is a \<open>services\<close> record of three answer functions. Each answer
    may depend on the whole history of the run so far (the \<open>event list\<close>), so a
    service may answer the same request differently at different times.
  \<^item> Every request to a service, and every start of a stage, is appended to the
    history; "was never invoked" and "ran exactly n times" are statements about it.
  \<^item> A Python exception is a value of type \<open>error\<close>; a function that can raise
    returns \<open>error + 'a\<close>.
  \<^item> A Python string is the list of its Unicode code points.
  \<^item> What a service answers is an arbitrary JSON value: the program checks no shape,
    so a value of the wrong shape raises wherever Python would raise.
  Logging is not modelled.
\<close>

subsection \<open>Strings\<close>

type_synonym str = "nat list"

text \<open>A string literal of the source, as code points.\<close>

definition lit :: "string \<Rightarrow> str" where
  "lit s = map of_char s"

text \<open>\<^verbatim>\<open>str.isspace\<close> on one character, which is also what \<^verbatim>\<open>str.strip()\<close> removes: the
  white space of Unicode as CPython tabulates it.\<close>

definition isspace :: "nat \<Rightarrow> bool" where
  "isspace c \<longleftrightarrow>
     (0x09 \<le> c \<and> c \<le> 0x0D) \<or> (0x1C \<le> c \<and> c \<le> 0x20) \<or> c = 0x85 \<or> c = 0xA0 \<or>
     c = 0x1680 \<or> (0x2000 \<le> c \<and> c \<le> 0x200A) \<or> c = 0x2028 \<or> c = 0x2029 \<or>
     c = 0x202F \<or> c = 0x205F \<or> c = 0x3000"

definition strip :: "str \<Rightarrow> str" where
  "strip s = rev (dropWhile isspace (rev (dropWhile isspace s)))"

text \<open>\<^verbatim>\<open>s.split('\n')\<close>: always at least one piece.\<close>

fun split_lines :: "str \<Rightarrow> str list" where
  "split_lines [] = [[]]"
| "split_lines (c # cs) =
     (if c = 0x0A then [] # split_lines cs
      else (case split_lines cs of
              [] \<Rightarrow> [[c]]
            | l # ls \<Rightarrow> (c # l) # ls))"

text \<open>\<^verbatim>\<open>sep.join(xs)\<close> on strings.\<close>

fun join :: "str \<Rightarrow> str list \<Rightarrow> str" where
  "join sep [] = []"
| "join sep [x] = x"
| "join sep (x # y # ys) = x @ sep @ join sep (y # ys)"

subsection \<open>Values and exceptions\<close>

text \<open>What \<^verbatim>\<open>response.json()\<close> and the Tavily client return: \<^verbatim>\<open>None\<close>, a bool, a number,
  a string, a list or a dict with string keys. A dict is the list of its items; a key
  is looked up with \<open>map_of\<close>. Of a number the program uses only whether it is zero
  (infinity and NaN behave like any other number that is not zero).\<close>

datatype json =
    JNull
  | JBool bool
  | JNum real
  | JStr str
  | JArr "json list"
  | JObj "(str \<times> json) list"

datatype error =
    HTTPError
  | OtherException
  | KeyError
  | IndexError
  | TypeError
  | AttributeError
  | GraphRecursionError

text \<open>The truth value of a Python value.\<close>

fun truthy :: "json \<Rightarrow> bool" where
  "truthy JNull = False"
| "truthy (JBool b) = b"
| "truthy (JNum x) = (x \<noteq> 0)"
| "truthy (JStr s) = (s \<noteq> [])"
| "truthy (JArr xs) = (xs \<noteq> [])"
| "truthy (JObj kv) = (kv \<noteq> [])"

text \<open>\<^verbatim>\<open>x.get(key, default)\<close>: only a dict has the method.\<close>

fun dict_get :: "json \<Rightarrow> str \<Rightarrow> json \<Rightarrow> error + json" where
  "dict_get (JObj kv) key other = Inr (case map_of kv key of None \<Rightarrow> other | Some v \<Rightarrow> v)"
| "dict_get x key other = Inl AttributeError"

text \<open>\<^verbatim>\<open>x[key]\<close> with a string key.\<close>

fun item :: "json \<Rightarrow> str \<Rightarrow> error + json" where
  "item (JObj kv) key = (case map_of kv key of None \<Rightarrow> Inl KeyError | Some v \<Rightarrow> Inr v)"
| "item x key = Inl TypeError"

text \<open>\<^verbatim>\<open>x[0]\<close>. A dict of string keys has no key \<open>0\<close>.\<close>

fun first :: "json \<Rightarrow> error + json" where
  "first (JArr []) = Inl IndexError"
| "first (JArr (v # vs)) = Inr v"
| "first (JStr []) = Inl IndexError"
| "first (JStr (c # cs)) = Inr (JStr [c])"
| "first (JObj kv) = Inl KeyError"
| "first x = Inl TypeError"

text \<open>\<^verbatim>\<open>for r in x\<close>: the elements of a list, the characters of a string, the keys of a
  dict.\<close>

fun elements :: "json \<Rightarrow> error + json list" where
  "elements (JArr vs) = Inr vs"
| "elements (JStr s) = Inr (map (\<lambda>c. JStr [c]) s)"
| "elements (JObj kv) = Inr (map (\<lambda>(k, v). JStr k) kv)"
| "elements x = Inl TypeError"

text \<open>\<^verbatim>\<open>x.split('\n')\<close>: only a string has the method.\<close>

fun split_method :: "json \<Rightarrow> error + str list" where
  "split_method (JStr s) = Inr (split_lines s)"
| "split_method x = Inl AttributeError"

text \<open>\<^verbatim>\<open>sep.join(xs)\<close> on values: an element that is not a string raises.\<close>

fun strings :: "json list \<Rightarrow> error + str list" where
  "strings [] = Inr []"
| "strings (JStr s # vs) = (case strings vs of Inl e \<Rightarrow> Inl e | Inr ss \<Rightarrow> Inr (s # ss))"
| "strings (v # vs) = Inl TypeError"

text \<open>The truth value of an optional string (\<^verbatim>\<open>os.environ.get\<close>): \<^verbatim>\<open>None\<close> and the
  empty string are false.\<close>

fun is_set :: "str option \<Rightarrow> bool" where
  "is_set None = False"
| "is_set (Some v) = (v \<noteq> [])"

subsection \<open>State, graph and history\<close>

text \<open>\<^verbatim>\<open>class AgentState(TypedDict)\<close>. The key \<open>revision_number\<close> may be absent:
  \<^verbatim>\<open>generation_node\<close> reads it with \<^verbatim>\<open>state.get("revision_number", 1)\<close>. The stages
  store what the services answered without looking at it, so \<open>plan\<close>, \<open>draft\<close>,
  \<open>critique\<close> and the elements of \<open>content\<close> are values, not always strings.\<close>

record AgentState =
  task :: str
  plan :: json
  draft :: json
  critique :: json
  content :: "json list"
  revision_number :: "int option"
  max_revisions :: int

text \<open>A stage returns a dict holding the keys it sets; the graph writes each of them
  into the state (no reducer is declared, so a written key replaces the old value).\<close>

datatype assignment =
    Set_task str
  | Set_plan json
  | Set_draft json
  | Set_critique json
  | Set_content "json list"
  | Set_revision_number int
  | Set_max_revisions int

fun key_of :: "assignment \<Rightarrow> string" where
  "key_of (Set_task _) = ''task''"
| "key_of (Set_plan _) = ''plan''"
| "key_of (Set_draft _) = ''draft''"
| "key_of (Set_critique _) = ''critique''"
| "key_of (Set_content _) = ''content''"
| "key_of (Set_revision_number _) = ''revision_number''"
| "key_of (Set_max_revisions _) = ''max_revisions''"

fun assign :: "AgentState \<Rightarrow> assignment \<Rightarrow> AgentState" where
  "assign s (Set_task v) = s\<lparr>task := v\<rparr>"
| "assign s (Set_plan v) = s\<lparr>plan := v\<rparr>"
| "assign s (Set_draft v) = s\<lparr>draft := v\<rparr>"
| "assign s (Set_critique v) = s\<lparr>critique := v\<rparr>"
| "assign s (Set_content v) = s\<lparr>content := v\<rparr>"
| "assign s (Set_revision_number v) = s\<lparr>revision_number := Some v\<rparr>"
| "assign s (Set_max_revisions v) = s\<lparr>max_revisions := v\<rparr>"

definition apply_update :: "AgentState \<Rightarrow> assignment list \<Rightarrow> AgentState" where
  "apply_update s u = foldl assign s u"

datatype node = planner | research_plan | generate | reflect | research_critique

datatype target = END | To node

datatype event =
    Enter node
  | MistralPost str
  | TavilySearch str int
  | GoogleGet str int

text \<open>\<open>str_of\<close> is Python's \<^verbatim>\<open>str()\<close> on a value that is not a string, as the f-strings
  and \<^verbatim>\<open>print\<close> apply it; how it renders such a value is left open.\<close>

record services =
  requests_post :: "event list \<Rightarrow> str \<Rightarrow> error + json"
  tavily_search :: "event list \<Rightarrow> str \<Rightarrow> int \<Rightarrow> error + json"
  requests_get :: "event list \<Rightarrow> str \<Rightarrow> int \<Rightarrow> error + json"
  GOOGLE_API_KEY :: "str option"
  GOOGLE_CSE_ID :: "str option"
  str_of :: "json \<Rightarrow> str"

text \<open>\<^verbatim>\<open>f"{x}"\<close>: a string as it is, anything else through \<^verbatim>\<open>str()\<close>.\<close>

fun format :: "services \<Rightarrow> json \<Rightarrow> str" where
  "format sv (JStr s) = s"
| "format sv x = str_of sv x"

subsection \<open>Search with fallback\<close>

text \<open>\<^verbatim>\<open>google_search\<close>: every exception is caught and turned into \<^verbatim>\<open>None\<close>.\<close>

definition google_search :: "services \<Rightarrow> str \<Rightarrow> int \<Rightarrow> event list \<Rightarrow> json \<times> event list" where
  "google_search sv query max_results h =
     (case requests_get sv h query max_results of
        Inl e \<Rightarrow> (JNull, h @ [GoogleGet query max_results])
      | Inr response \<Rightarrow> (response, h @ [GoogleGet query max_results]))"

text \<open>\<^verbatim>\<open>[r['content'] for r in rs]\<close> over the elements already taken from the iterable.\<close>

fun contents :: "json list \<Rightarrow> error + json list" where
  "contents [] = Inr []"
| "contents (r # rs) =
     (case item r (lit ''content'') of
        Inl e \<Rightarrow> Inl e
      | Inr c \<Rightarrow> (case contents rs of Inl e \<Rightarrow> Inl e | Inr cs \<Rightarrow> Inr (c # cs)))"

text \<open>\<^verbatim>\<open>[r.get('snippet', '') for r in rs]\<close>, likewise.\<close>

fun snippets :: "json list \<Rightarrow> error + json list" where
  "snippets [] = Inr []"
| "snippets (r # rs) =
     (case dict_get r (lit ''snippet'') (JStr []) of
        Inl e \<Rightarrow> Inl e
      | Inr c \<Rightarrow> (case snippets rs of Inl e \<Rightarrow> Inl e | Inr cs \<Rightarrow> Inr (c # cs)))"

text \<open>The \<^verbatim>\<open>try\<close> block around Tavily: \<open>Some\<close> of the list it returns, or \<open>None\<close> when
  control leaves the block otherwise (any exception, caught; or a result that is
  false).\<close>

definition try_tavily :: "services \<Rightarrow> str \<Rightarrow> int \<Rightarrow> event list \<Rightarrow> json list option" where
  "try_tavily sv query max_results h =
     (case tavily_search sv h query max_results of
        Inl e \<Rightarrow> None
      | Inr search_response \<Rightarrow>
          (case dict_get search_response (lit ''results'') (JArr []) of
             Inl e \<Rightarrow> None
           | Inr rs \<Rightarrow>
               if truthy rs then
                 (case elements rs of
                    Inl e \<Rightarrow> None
                  | Inr es \<Rightarrow> (case contents es of Inl e \<Rightarrow> None | Inr cs \<Rightarrow> Some cs))
               else None))"

text \<open>The part after the \<^verbatim>\<open>try\<close> block is not guarded: what \<^verbatim>\<open>google_search\<close> returned
  is used as a dict holding a list of dicts, and an exception there reaches the
  caller.\<close>

definition search_with_fallback ::
  "services \<Rightarrow> str \<Rightarrow> int \<Rightarrow> event list \<Rightarrow> (error + json list) \<times> event list" where
  "search_with_fallback sv query max_results h =
     (let h1 = h @ [TavilySearch query max_results] in
      case try_tavily sv query max_results h of
        Some cs \<Rightarrow> (Inr cs, h1)
      | None \<Rightarrow>
          if is_set (GOOGLE_API_KEY sv) \<and> is_set (GOOGLE_CSE_ID sv) then
            (case google_search sv query max_results h1 of
               (search_response, h2) \<Rightarrow>
                 if truthy search_response then
                   (case dict_get search_response (lit ''items'') (JArr []) of
                      Inl e \<Rightarrow> (Inl e, h2)
                    | Inr rs \<Rightarrow>
                        if truthy rs then
                          (case elements rs of
                             Inl e \<Rightarrow> (Inl e, h2)
                           | Inr es \<Rightarrow>
                               (case snippets es of
                                  Inl e \<Rightarrow> (Inl e, h2)
                                | Inr cs \<Rightarrow> (Inr cs, h2)))
                        else (Inr [], h2))
                 else (Inr [], h2))
          else (Inr [], h1))"

subsection \<open>The completion client\<close>

text \<open>A message is the pair of its role and its content. \<^verbatim>\<open>call_mistral_api\<close> joins
  the messages into one prompt and posts it. It catches \<^verbatim>\<open>HTTPError\<close> only to log
  it and raises it again, so every failure of the request reaches the caller.\<close>

definition build_prompt :: "services \<Rightarrow> (str \<times> json) list \<Rightarrow> str" where
  "build_prompt sv messages =
     join (lit ''\<newline>'') (map (\<lambda>(role, c). role @ lit '': '' @ format sv c) messages)"

definition call_mistral_api ::
  "services \<Rightarrow> (str \<times> json) list \<Rightarrow> event list \<Rightarrow> (error + json) \<times> event list" where
  "call_mistral_api sv messages h =
     (let prompt = build_prompt sv messages in
      (requests_post sv h prompt, h @ [MistralPost prompt]))"

text \<open>\<^verbatim>\<open>response['choices'][0]['text']\<close>.\<close>

definition choice_text :: "json \<Rightarrow> error + json" where
  "choice_text response =
     (case item response (lit ''choices'') of
        Inl e \<Rightarrow> Inl e
      | Inr cs \<Rightarrow>
          (case first cs of
             Inl e \<Rightarrow> Inl e
           | Inr c \<Rightarrow> item c (lit ''text'')))"

subsection \<open>Prompts\<close>

definition PLAN_PROMPT :: str where
  "PLAN_PROMPT = lit
     (''You are an expert writer tasked with writing a high-level outline of an essay.\<newline>'' @
      ''Write such an outline for the user provided topic. Give an outline of the essay along with any relevant notes\<newline>'' @
      ''or instructions for the sections.'')"

definition WRITER_PROMPT :: "str \<Rightarrow> str" where
  "WRITER_PROMPT text = lit
     (''You are an essay assistant tasked with writing excellent 5-paragraph essays.\<newline>'' @
      ''Generate the best essay possible for the user's request and the initial outline.\<newline>'' @
      ''If the user provides critique, respond with a revised version of your previous attempts.\<newline>'' @
      ''Utilize all the information below as needed:\<newline>'' @
      ''\<newline>'' @
      ''------\<newline>'' @
      ''\<newline>'') @
     text"

definition REFLECTION_PROMPT :: str where
  "REFLECTION_PROMPT = lit
     (''You are a teacher grading an essay submission.\<newline>'' @
      ''Generate critique and recommendations for the user's submission.\<newline>'' @
      ''Provide detailed recommendations, including requests for length, depth, style, etc.'')"

definition RESEARCH_PLAN_PROMPT :: str where
  "RESEARCH_PLAN_PROMPT = lit
     (''You are a researcher charged with providing information that can\<newline>'' @
      ''be used when writing the following essay. Generate a list of search queries that will gather\<newline>'' @
      ''any relevant information. Only generate 3 queries max.'')"

definition RESEARCH_CRITIQUE_PROMPT :: str where
  "RESEARCH_CRITIQUE_PROMPT = lit
     (''You are a researcher charged with providing information that can\<newline>'' @
      ''be used when making any requested revisions (as outlined below).\<newline>'' @
      ''Generate a list of search queries that will gather any relevant information. Only generate 3 queries max.'')"

subsection \<open>The stage functions\<close>

text \<open>
  A stage takes the state and the history. It returns the exception it raised or the
  dict of the keys it sets, the state as the stage left it, and the new history.
  The state is returned because two stages change it in place: \<^verbatim>\<open>state['content'] or []\<close>
  is the state's own list when that list is not empty, and \<^verbatim>\<open>extend\<close> then grows the
  list the state holds, also when a later search raises.
\<close>

type_synonym stage_result = "(error + assignment list) \<times> AgentState \<times> event list"

definition plan_node :: "services \<Rightarrow> AgentState \<Rightarrow> event list \<Rightarrow> stage_result" where
  "plan_node sv state h =
     (case call_mistral_api sv
             [(lit ''system'', JStr PLAN_PROMPT), (lit ''user'', JStr (task state))] h of
        (Inl e, h1) \<Rightarrow> (Inl e, state, h1)
      | (Inr response, h1) \<Rightarrow>
          (case choice_text response of
             Inl e \<Rightarrow> (Inl e, state, h1)
           | Inr t \<Rightarrow> (Inr [Set_plan t], state, h1)))"

text \<open>\<^verbatim>\<open>[q.strip() for q in text.split('\n') if q.strip()]\<close>.\<close>

definition parse_queries :: "json \<Rightarrow> error + str list" where
  "parse_queries text =
     (case split_method text of
        Inl e \<Rightarrow> Inl e
      | Inr ls \<Rightarrow> Inr (map strip (filter (\<lambda>q. strip q \<noteq> []) ls)))"

text \<open>The loop \<^verbatim>\<open>for q in ...: content.extend(search_with_fallback(q, max_results=2))\<close>:
  the exception that ended it, if any, the list as the loop left it, and the history.\<close>

fun search_queries ::
  "services \<Rightarrow> str list \<Rightarrow> json list \<Rightarrow> event list \<Rightarrow> error option \<times> json list \<times> event list" where
  "search_queries sv [] found h = (None, found, h)"
| "search_queries sv (q # qs) found h =
     (case search_with_fallback sv q 2 h of
        (Inl e, h1) \<Rightarrow> (Some e, found, h1)
      | (Inr search_results, h1) \<Rightarrow> search_queries sv qs (found @ search_results) h1)"

definition research_plan_node :: "services \<Rightarrow> AgentState \<Rightarrow> event list \<Rightarrow> stage_result" where
  "research_plan_node sv state h =
     (case call_mistral_api sv
             [(lit ''system'', JStr RESEARCH_PLAN_PROMPT), (lit ''user'', JStr (task state))] h of
        (Inl e, h1) \<Rightarrow> (Inl e, state, h1)
      | (Inr response, h1) \<Rightarrow>
          (case choice_text response of
             Inl e \<Rightarrow> (Inl e, state, h1)
           | Inr t \<Rightarrow>
               (case parse_queries t of
                  Inl e \<Rightarrow> (Inl e, state, h1)
                | Inr queries \<Rightarrow>
                    (let aliased = (content state \<noteq> []);
                         found0 = (if aliased then content state else [])
                     in case search_queries sv (take 3 queries) found0 h1 of
                          (raised, found, h2) \<Rightarrow>
                            ((case raised of
                                Some e \<Rightarrow> Inl e
                              | None \<Rightarrow> Inr [Set_content found]),
                             if aliased then state\<lparr>content := found\<rparr> else state,
                             h2)))))"

text \<open>\<^verbatim>\<open>state.get("revision_number", 1)\<close>.\<close>

definition get_revision_number :: "AgentState \<Rightarrow> int" where
  "get_revision_number state = (case revision_number state of None \<Rightarrow> 1 | Some r \<Rightarrow> r)"

text \<open>The first statement joins \<open>content\<close>, which raises when an element is not a
  string; the completion is called after that.\<close>

definition generation_node :: "services \<Rightarrow> AgentState \<Rightarrow> event list \<Rightarrow> stage_result" where
  "generation_node sv state h =
     (case strings (if content state \<noteq> [] then content state else []) of
        Inl e \<Rightarrow> (Inl e, state, h)
      | Inr ss \<Rightarrow>
          (let text = join (lit ''\<newline>\<newline>'') ss;
               user_message =
                 (lit ''user'',
                  JStr (task state @ lit ''\<newline>\<newline>Here is my plan:\<newline>\<newline>'' @ format sv (plan state)));
               messages = [(lit ''system'', JStr (WRITER_PROMPT text)), user_message]
           in case call_mistral_api sv messages h of
                (Inl e, h1) \<Rightarrow> (Inl e, state, h1)
              | (Inr response, h1) \<Rightarrow>
                  (case choice_text response of
                     Inl e \<Rightarrow> (Inl e, state, h1)
                   | Inr t \<Rightarrow>
                       (Inr [Set_draft t, Set_revision_number (get_revision_number state + 1)],
                        state, h1))))"

definition reflection_node :: "services \<Rightarrow> AgentState \<Rightarrow> event list \<Rightarrow> stage_result" where
  "reflection_node sv state h =
     (case call_mistral_api sv
             [(lit ''system'', JStr REFLECTION_PROMPT), (lit ''user'', draft state)] h of
        (Inl e, h1) \<Rightarrow> (Inl e, state, h1)
      | (Inr response, h1) \<Rightarrow>
          (case choice_text response of
             Inl e \<Rightarrow> (Inl e, state, h1)
           | Inr t \<Rightarrow> (Inr [Set_critique t], state, h1)))"

definition research_critique_node :: "services \<Rightarrow> AgentState \<Rightarrow> event list \<Rightarrow> stage_result" where
  "research_critique_node sv state h =
     (case call_mistral_api sv
             [(lit ''system'', JStr RESEARCH_CRITIQUE_PROMPT), (lit ''user'', critique state)] h of
        (Inl e, h1) \<Rightarrow> (Inl e, state, h1)
      | (Inr response, h1) \<Rightarrow>
          (case choice_text response of
             Inl e \<Rightarrow> (Inl e, state, h1)
           | Inr t \<Rightarrow>
               (case parse_queries t of
                  Inl e \<Rightarrow> (Inl e, state, h1)
                | Inr queries \<Rightarrow>
                    (let aliased = (content state \<noteq> []);
                         found0 = (if aliased then content state else [])
                     in case search_queries sv (take 3 queries) found0 h1 of
                          (raised, found, h2) \<Rightarrow>
                            ((case raised of
                                Some e \<Rightarrow> Inl e
                              | None \<Rightarrow> Inr [Set_content found]),
                             if aliased then state\<lparr>content := found\<rparr> else state,
                             h2)))))"

text \<open>\<^verbatim>\<open>should_continue\<close> reads \<^verbatim>\<open>state["revision_number"]\<close>, which raises when the key is
  absent.\<close>

definition should_continue :: "AgentState \<Rightarrow> error + target" where
  "should_continue state =
     (case revision_number state of
        None \<Rightarrow> Inl KeyError
      | Some r \<Rightarrow> Inr (if r > max_revisions state then END else To reflect))"

subsection \<open>The graph\<close>

text \<open>
  \<^verbatim>\<open>builder.add_node\<close> binds each name to its stage function; \<^verbatim>\<open>add_edge\<close> and
  \<^verbatim>\<open>add_conditional_edges\<close> give every node its one way out. The graph runs one node at
  a time: it calls the node's function, writes the returned keys into the state and
  follows the node's edge. An exception raised by a stage or by the edge function ends
  the run.
\<close>

fun node_function :: "node \<Rightarrow> services \<Rightarrow> AgentState \<Rightarrow> event list \<Rightarrow> stage_result" where
  "node_function planner = plan_node"
| "node_function generate = generation_node"
| "node_function reflect = reflection_node"
| "node_function research_plan = research_plan_node"
| "node_function research_critique = research_critique_node"

fun edge :: "node \<Rightarrow> AgentState \<Rightarrow> error + target" where
  "edge generate state = should_continue state"
| "edge planner state = Inr (To research_plan)"
| "edge research_plan state = Inr (To generate)"
| "edge reflect state = Inr (To research_critique)"
| "edge research_critique state = Inr (To generate)"

text \<open>One step of the graph at node \<open>n\<close>: the exception that ends the run, or the
  edge's target; with the state and the history after the step.\<close>

definition step ::
  "services \<Rightarrow> node \<Rightarrow> AgentState \<Rightarrow> event list
     \<Rightarrow> (error + target) \<times> AgentState \<times> event list" where
  "step sv n state h =
     (case node_function n sv state (h @ [Enter n]) of
        (Inl e, state1, h1) \<Rightarrow> (Inl e, state1, h1)
      | (Inr u, state1, h1) \<Rightarrow>
          (let state2 = apply_update state1 u in (edge n state2, state2, h1)))"

text \<open>How a run ends: at \<^verbatim>\<open>END\<close> with the final state; with the exception of a stage
  (and the state at that moment); or cut by LangGraph, which raises
  \<^verbatim>\<open>GraphRecursionError\<close> when the steps allowed to one run are used up.\<close>

datatype outcome =
    Finished AgentState "event list"
  | Aborted error AgentState "event list"
  | OutOfSteps AgentState "event list"

text \<open>Readers of an outcome.\<close>

fun final_state :: "outcome \<Rightarrow> AgentState" where
  "final_state (Finished s h) = s"
| "final_state (Aborted e s h) = s"
| "final_state (OutOfSteps s h) = s"

fun history :: "outcome \<Rightarrow> event list" where
  "history (Finished s h) = h"
| "history (Aborted e s h) = h"
| "history (OutOfSteps s h) = h"

fun finished :: "outcome \<Rightarrow> bool" where
  "finished (Finished s h) = True"
| "finished (Aborted e s h) = False"
| "finished (OutOfSteps s h) = False"

fun aborted :: "outcome \<Rightarrow> bool" where
  "aborted (Finished s h) = False"
| "aborted (Aborted e s h) = True"
| "aborted (OutOfSteps s h) = False"

fun out_of_steps :: "outcome \<Rightarrow> bool" where
  "out_of_steps (Finished s h) = False"
| "out_of_steps (Aborted e s h) = False"
| "out_of_steps (OutOfSteps s h) = True"

subsection \<open>Running the graph\<close>

text \<open>
  A run with \<open>k\<close> steps allowed: step until \<^verbatim>\<open>END\<close> or an exception; when no step is
  left and the run is not at \<^verbatim>\<open>END\<close>, it is cut.

  \<^verbatim>\<open>main\<close> calls \<^verbatim>\<open>graph.invoke\<close> without a config, so LangGraph's default
  \<^verbatim>\<open>recursion_limit\<close> of 25 applies. A run of this graph from its entry point that
  reaches \<^verbatim>\<open>END\<close> has made a multiple of three steps (\<open>run_graph_finished\<close> below), so
  the longest run that can finish has 24 steps and the shortest that is cut would have
  needed 27. What the library does with a run whose last allowed step is also its last
  step is therefore left open, as is the number of steps it lets a cut run make.
\<close>

fun run_graph :: "services \<Rightarrow> nat \<Rightarrow> node \<Rightarrow> AgentState \<Rightarrow> event list \<Rightarrow> outcome" where
  "run_graph sv 0 n state h = OutOfSteps state h"
| "run_graph sv (Suc k) n state h =
     (case step sv n state h of
        (Inl e, state1, h1) \<Rightarrow> Aborted e state1 h1
      | (Inr END, state1, h1) \<Rightarrow> Finished state1 h1
      | (Inr (To n1), state1, h1) \<Rightarrow> run_graph sv k n1 state1 h1)"

definition recursion_limit :: nat where
  "recursion_limit = 25"

text \<open>\<^verbatim>\<open>builder.set_entry_point("planner")\<close>.\<close>

definition graph_invoke :: "services \<Rightarrow> AgentState \<Rightarrow> event list \<Rightarrow> outcome" where
  "graph_invoke sv input h = run_graph sv recursion_limit planner input h"

subsection \<open>The console program\<close>

text \<open>\<^verbatim>\<open>main\<close> gets the line typed at the prompt. It returns after printing, or an
  exception of the run leaves it.\<close>

datatype main_result = Printed "str list" | Raised error

definition main :: "services \<Rightarrow> str \<Rightarrow> event list \<Rightarrow> main_result \<times> event list" where
  "main sv typed h =
     (let essay_topic = strip typed in
      if essay_topic = [] then (Printed [lit ''Error: Essay topic cannot be empty.''], h)
      else
        (let max_revisions_const = 3 in
         case graph_invoke sv
                \<lparr>task = essay_topic, plan = JStr [], draft = JStr [], critique = JStr [],
                 content = [], revision_number = Some 0,
                 max_revisions = max_revisions_const\<rparr> h of
           Finished result h1 \<Rightarrow>
             (Printed [lit ''\<newline>Final Essay:'', format sv (draft result)], h1)
         | Aborted e state1 h1 \<Rightarrow> (Raised e, h1)
         | OutOfSteps state1 h1 \<Rightarrow> (Raised GraphRecursionError, h1)))"

subsection \<open>Reading the history\<close>

text \<open>The nodes that were started, in order.\<close>

fun entered :: "event list \<Rightarrow> node list" where
  "entered [] = []"
| "entered (Enter n # h) = n # entered h"
| "entered (e # h) = entered h"

text \<open>The requests sent to Tavily, in order: query and \<open>max_results\<close>. Every call of
  the resolver begins with one.\<close>

fun searched :: "event list \<Rightarrow> (str \<times> int) list" where
  "searched [] = []"
| "searched (TavilySearch q m # h) = (q, m) # searched h"
| "searched (e # h) = searched h"

text \<open>The requests sent to the completion endpoint, in order.\<close>

fun posted :: "event list \<Rightarrow> str list" where
  "posted [] = []"
| "posted (MistralPost p # h) = p # posted h"
| "posted (e # h) = posted h"

subsection \<open>What a stage may change\<close>

text \<open>\<open>kept s s1\<close>: the state \<open>s1\<close> a stage leaves behind differs from \<open>s\<close> at most by
  a longer \<open>content\<close>. \<open>updated n s s2\<close>: what holds of the state \<open>s2\<close> after the update
  of node \<open>n\<close> was written.\<close>

definition kept :: "AgentState \<Rightarrow> AgentState \<Rightarrow> bool" where
  "kept s s1 \<longleftrightarrow>
     task s1 = task s \<and> max_revisions s1 = max_revisions s \<and>
     revision_number s1 = revision_number s \<and> prefix (content s) (content s1)"

definition updated :: "node \<Rightarrow> AgentState \<Rightarrow> AgentState \<Rightarrow> bool" where
  "updated n s s2 \<longleftrightarrow>
     task s2 = task s \<and> max_revisions s2 = max_revisions s \<and>
     prefix (content s) (content s2) \<and>
     revision_number s2 =
       (if n = generate then Some (get_revision_number s + 1) else revision_number s)"

subsection \<open>Example services\<close>

text \<open>Concrete services and states on which the theorems below are exercised. The text
  the completion answers with has a no-break space and a next-line character in it.\<close>

definition demo_text :: str where
  "demo_text = lit ''one'' @ [0xA0, 0x0A, 0x85, 0x0A] @ lit '' two \<newline>\<newline>three\<newline>four\<newline>five''"

definition demo_post :: "event list \<Rightarrow> str \<Rightarrow> error + json" where
  "demo_post h p =
     Inr (JObj [(lit ''choices'', JArr [JObj [(lit ''text'', JStr demo_text)]])])"

definition demo_tavily :: "event list \<Rightarrow> str \<Rightarrow> int \<Rightarrow> error + json" where
  "demo_tavily h q m =
     Inr (JObj [(lit ''results'',
            JArr [JObj [(lit ''content'', JStr (lit ''first''))],
                  JObj [(lit ''content'', JStr (lit ''second''))]])])"

definition no_tavily :: "event list \<Rightarrow> str \<Rightarrow> int \<Rightarrow> error + json" where
  "no_tavily h q m = Inl OtherException"

definition demo_google :: "event list \<Rightarrow> str \<Rightarrow> int \<Rightarrow> error + json" where
  "demo_google h q m =
     Inr (JObj [(lit ''items'',
            JArr [JObj [(lit ''snippet'', JStr (lit ''alpha''))],
                  JObj [(lit ''title'', JStr (lit ''beta''))]])])"

definition no_google :: "event list \<Rightarrow> str \<Rightarrow> int \<Rightarrow> error + json" where
  "no_google h q m = Inl HTTPError"

definition demo_services :: services where
  "demo_services =
     \<lparr>requests_post = demo_post, tavily_search = demo_tavily, requests_get = demo_google,
      GOOGLE_API_KEY = Some (lit ''key''), GOOGLE_CSE_ID = Some (lit ''cx''),
      str_of = (\<lambda>v. lit ''?'')\<rparr>"

definition no_post :: "event list \<Rightarrow> str \<Rightarrow> error + json" where
  "no_post h p = Inl HTTPError"

definition mute_services :: services where
  "mute_services = demo_services\<lparr>requests_post := no_post\<rparr>"

definition start :: "int \<Rightarrow> AgentState" where
  "start n = \<lparr>task = lit ''Remote work'', plan = JStr [], draft = JStr [], critique = JStr [],
              content = [], revision_number = Some 0, max_revisions = n\<rparr>"


definition odd_google :: "event list \<Rightarrow> str \<Rightarrow> int \<Rightarrow> error + json" where
  "odd_google h q m = Inr (JArr [JStr (lit ''error'')])"

definition fallback_services :: services where
  "fallback_services = demo_services\<lparr>tavily_search := no_tavily\<rparr>"

definition down_services :: services where
  "down_services = demo_services\<lparr>tavily_search := no_tavily, requests_get := no_google\<rparr>"


definition odd_services :: services where
  "odd_services = demo_services\<lparr>tavily_search := no_tavily, requests_get := odd_google\<rparr>"

definition bare_services :: services where
  "bare_services = demo_services\<lparr>tavily_search := no_tavily, GOOGLE_API_KEY := None\<rparr>"

subsection \<open>Predicates of the properties\<close>

fun is_text :: "json \<Rightarrow> bool" where
  "is_text (JStr s) = True"
| "is_text x = False"

definition quiet :: "services \<Rightarrow> bool" where
  "quiet sv \<longleftrightarrow>
     (\<forall>h p. \<exists>resp t. requests_post sv h p = Inr resp \<and> choice_text resp = Inr (JStr t)) \<and>
     (\<forall>h q m. \<exists>rs. fst (search_with_fallback sv q m h) = Inr rs \<and> list_all is_text rs)"

text \<open>The value under a key of a dict, if the value is a dict and has the key.\<close>

fun field :: "str \<Rightarrow> json \<Rightarrow> json option" where
  "field key (JObj kv) = map_of kv key"
| "field key x = None"


text \<open>The primary provider failed: the request raised, or its answer is not a dict
  holding under \<open>results\<close> a list, not empty, of dicts that each have a \<open>content\<close>.\<close>

definition primary_failed :: "services \<Rightarrow> str \<Rightarrow> int \<Rightarrow> event list \<Rightarrow> bool" where
  "primary_failed sv q m h \<longleftrightarrow>
     (case tavily_search sv h q m of
        Inl e \<Rightarrow> True
      | Inr resp \<Rightarrow>
          (case field (lit ''results'') resp of
             Some (JArr rs) \<Rightarrow> rs = [] \<or> (\<exists>r\<in>set rs. field (lit ''content'') r = None)
           | _ \<Rightarrow> True))"

text \<open>The number of drafts a run still writes from a state: one more than the
  revisions left, and at least one, since the test comes after the draft.\<close>

definition drafts_left :: "AgentState \<Rightarrow> int" where
  "drafts_left s = max 1 (max_revisions s + 1 - get_revision_number s)"

text \<open>The steps from a node to the next \<open>generate\<close>, that one included.\<close>

fun distance :: "node \<Rightarrow> nat" where
  "distance generate = 1"
| "distance research_plan = 2"
| "distance research_critique = 2"
| "distance planner = 3"
| "distance reflect = 3"

text \<open>The steps a run needs from a node and a state to reach \<^verbatim>\<open>END\<close>.\<close>

definition steps_needed :: "node \<Rightarrow> AgentState \<Rightarrow> nat" where
  "steps_needed n s = 3 * (nat (drafts_left s) - 1) + distance n"

text \<open>The prompt a stage posts, from the messages it builds. \<open>generate\<close> joins
  \<open>content\<close> first and has no prompt when that raises.\<close>

fun stage_prompt :: "services \<Rightarrow> node \<Rightarrow> AgentState \<Rightarrow> error + str" where
  "stage_prompt sv planner s =
     Inr (build_prompt sv [(lit ''system'', JStr PLAN_PROMPT), (lit ''user'', JStr (task s))])"
| "stage_prompt sv research_plan s =
     Inr (build_prompt sv
            [(lit ''system'', JStr RESEARCH_PLAN_PROMPT), (lit ''user'', JStr (task s))])"
| "stage_prompt sv generate s =
     (case strings (if content s \<noteq> [] then content s else []) of
        Inl e \<Rightarrow> Inl e
      | Inr ss \<Rightarrow>
          Inr (build_prompt sv
                 [(lit ''system'', JStr (WRITER_PROMPT (join (lit ''\<newline>\<newline>'') ss))),
                  (lit ''user'',
                   JStr (task s @ lit ''\<newline>\<newline>Here is my plan:\<newline>\<newline>'' @ format sv (plan s)))]))"
| "stage_prompt sv reflect s =
     Inr (build_prompt sv [(lit ''system'', JStr REFLECTION_PROMPT), (lit ''user'', draft s)])"
| "stage_prompt sv research_critique s =
     Inr (build_prompt sv
            [(lit ''system'', JStr RESEARCH_CRITIQUE_PROMPT), (lit ''user'', critique s)])"

text \<open>The keys of the dict each stage returns.\<close>

fun keys_written :: "node \<Rightarrow> string list" where
  "keys_written planner = [''plan'']"
| "keys_written research_plan = [''content'']"
| "keys_written generate = [''draft'', ''revision_number'']"
| "keys_written reflect = [''critique'']"
| "keys_written research_critique = [''content'']"

text \<open>The query list in the words of the specification: split the text at line
  breaks, trim each line, drop the empty lines.\<close>

definition trimmed_lines :: "str \<Rightarrow> str list" where
  "trimmed_lines t = filter (\<lambda>l. l \<noteq> []) (map strip (split_lines t))"

definition first_post ::
  "services \<Rightarrow> event list \<Rightarrow> str \<Rightarrow> error + assignment list \<Rightarrow> AgentState \<Rightarrow> AgentState
     \<Rightarrow> event list \<Rightarrow> bool" where
  "first_post sv h p r s s1 h1 \<longleftrightarrow>
     prefix (h @ [MistralPost p]) h1 \<and>
     (case requests_post sv h p of
        Inl e \<Rightarrow> r = Inl e \<and> s1 = s \<and> h1 = h @ [MistralPost p]
      | Inr resp \<Rightarrow> True)"

section \<open>Properties\<close>

subsection \<open>Facts about the stages and the steps\<close>

lemma lit_eq [simp]: "lit a = lit b \<longleftrightarrow> a = b"
  by (simp add: lit_def inj_map_eq_map inj_on_def)

lemma lit_empty [simp]: "lit a = [] \<longleftrightarrow> a = []"
  by (simp add: lit_def)

lemma entered_append: "entered (h @ k) = entered h @ entered k"
  by (induction h rule: entered.induct) auto

lemma searched_append: "searched (h @ k) = searched h @ searched k"
  by (induction h rule: searched.induct) auto

lemma google_search_history:
  "google_search sv q m h = (r, h1) \<Longrightarrow> h1 = h @ [GoogleGet q m]"
  by (auto simp: google_search_def split: sum.splits)

lemma search_with_fallback_history:
  assumes "search_with_fallback sv q m h = (r, h1)"
  shows "h1 = h @ [TavilySearch q m] \<or> h1 = h @ [TavilySearch q m, GoogleGet q m]"
proof (cases "try_tavily sv q m h")
  case (Some cs)
  with assms show ?thesis by (simp add: search_with_fallback_def)
next
  case None
  obtain g h2 where g: "google_search sv q m (h @ [TavilySearch q m]) = (g, h2)"
    by (cases "google_search sv q m (h @ [TavilySearch q m])")
  from google_search_history [OF g] have h2: "h2 = h @ [TavilySearch q m, GoogleGet q m]" by simp
  from assms None g have "h1 = h @ [TavilySearch q m] \<or> h1 = h2"
    by (auto simp: search_with_fallback_def Let_def split: if_splits sum.splits)
  with h2 show ?thesis by simp
qed

lemma search_with_fallback_entered:
  "search_with_fallback sv q m h = (r, h1) \<Longrightarrow> entered h1 = entered h"
  by (auto dest!: search_with_fallback_history simp: entered_append)

lemma search_with_fallback_searched:
  "search_with_fallback sv q m h = (r, h1) \<Longrightarrow> searched h1 = searched h @ [(q, m)]"
  by (auto dest!: search_with_fallback_history simp: searched_append)

lemma search_queries_entered:
  "search_queries sv qs found h = (r, found1, h1) \<Longrightarrow> entered h1 = entered h"
proof (induction qs arbitrary: found h)
  case Nil
  then show ?case by simp
next
  case (Cons q qs)
  obtain sr h' where sw: "search_with_fallback sv q 2 h = (sr, h')"
    by (cases "search_with_fallback sv q 2 h")
  note e = search_with_fallback_entered [OF sw]
  show ?case
  proof (cases sr)
    case (Inl x)
    with Cons.prems sw e show ?thesis by simp
  next
    case (Inr rs)
    with Cons.prems sw have "search_queries sv qs (found @ rs) h' = (r, found1, h1)" by simp
    from Cons.IH [OF this] e show ?thesis by simp
  qed
qed

lemma search_queries_prefix:
  "search_queries sv qs found h = (r, found1, h1) \<Longrightarrow> prefix found found1"
proof (induction qs arbitrary: found h)
  case Nil
  then show ?case by simp
next
  case (Cons q qs)
  obtain sr h' where sw: "search_with_fallback sv q 2 h = (sr, h')"
    by (cases "search_with_fallback sv q 2 h")
  show ?case
  proof (cases sr)
    case (Inl x)
    with Cons.prems sw show ?thesis by simp
  next
    case (Inr rs)
    with Cons.prems sw have "search_queries sv qs (found @ rs) h' = (r, found1, h1)" by simp
    from Cons.IH [OF this] show ?thesis by (rule append_prefixD)
  qed
qed

lemma search_queries_searched:
  "search_queries sv qs found h = (r, found1, h1) \<Longrightarrow>
     \<exists>j\<le>length qs. searched h1 = searched h @ map (\<lambda>q. (q, 2)) (take j qs) \<and>
                    (r = None \<longrightarrow> j = length qs)"
proof (induction qs arbitrary: found h)
  case Nil
  then show ?case by simp
next
  case (Cons q qs)
  obtain sr h' where sw: "search_with_fallback sv q 2 h = (sr, h')"
    by (cases "search_with_fallback sv q 2 h")
  note s = search_with_fallback_searched [OF sw]
  show ?case
  proof (cases sr)
    case (Inl x)
    with Cons.prems sw have "r = Some x" "h1 = h'" by simp_all
    with s have "searched h1 = searched h @ map (\<lambda>q. (q, 2)) (take 1 (q # qs)) \<and>
                 (r = None \<longrightarrow> 1 = length (q # qs))" by simp
    then show ?thesis by (intro exI [of _ 1]) simp
  next
    case (Inr rs)
    with Cons.prems sw have "search_queries sv qs (found @ rs) h' = (r, found1, h1)" by simp
    from Cons.IH [OF this] obtain j where j: "j \<le> length qs"
      "searched h1 = searched h' @ map (\<lambda>q. (q, 2)) (take j qs)" "r = None \<longrightarrow> j = length qs"
      by blast
    with s have "searched h1 = searched h @ map (\<lambda>q. (q, 2)) (take (Suc j) (q # qs)) \<and>
                 (r = None \<longrightarrow> Suc j = length (q # qs))" by simp
    with j(1) show ?thesis by (intro exI [of _ "Suc j"]) simp
  qed
qed

lemma call_mistral_api_history:
  "call_mistral_api sv ms h = (r, h1) \<Longrightarrow>
     h1 = h @ [MistralPost (build_prompt sv ms)] \<and> r = requests_post sv h (build_prompt sv ms)"
  by (auto simp: call_mistral_api_def Let_def)

lemma call_mistral_api_entered:
  "call_mistral_api sv ms h = (r, h1) \<Longrightarrow> entered h1 = entered h"
  by (auto dest!: call_mistral_api_history simp: entered_append)

lemma plan_node_effect:
  "plan_node sv s h = (r, s1, h1) \<Longrightarrow>
     s1 = s \<and> entered h1 = entered h \<and> (\<forall>u. r = Inr u \<longrightarrow> (\<exists>t. u = [Set_plan t]))"
  by (auto simp: plan_node_def split: prod.splits sum.splits dest: call_mistral_api_entered)

lemma reflection_node_effect:
  "reflection_node sv s h = (r, s1, h1) \<Longrightarrow>
     s1 = s \<and> entered h1 = entered h \<and> (\<forall>u. r = Inr u \<longrightarrow> (\<exists>t. u = [Set_critique t]))"
  by (auto simp: reflection_node_def split: prod.splits sum.splits dest: call_mistral_api_entered)

lemma generation_node_effect:
  "generation_node sv s h = (r, s1, h1) \<Longrightarrow>
     s1 = s \<and> entered h1 = entered h \<and>
     (\<forall>u. r = Inr u \<longrightarrow> (\<exists>t. u = [Set_draft t, Set_revision_number (get_revision_number s + 1)]))"
  by (auto simp: generation_node_def Let_def split: prod.splits sum.splits
      dest: call_mistral_api_entered)

lemma search_queries_effect:
  "search_queries sv qs (if content s \<noteq> [] then content s else []) h = (raised, found, h2) \<Longrightarrow>
     prefix (content s) found \<and> entered h2 = entered h"
  using search_queries_prefix [of sv qs "if content s \<noteq> [] then content s else []" h raised found h2]
    search_queries_entered [of sv qs "if content s \<noteq> [] then content s else []" h raised found h2]
  by (simp split: if_splits)

lemma research_plan_node_effect:
  "research_plan_node sv s h = (r, s1, h1) \<Longrightarrow>
     entered h1 = entered h \<and> kept s s1 \<and>
     (\<forall>u. r = Inr u \<longrightarrow> (\<exists>c. u = [Set_content c] \<and> prefix (content s) c))"
  by (auto simp: research_plan_node_def Let_def kept_def
      split: prod.splits sum.splits option.splits
      dest!: call_mistral_api_entered search_queries_effect)

lemma research_critique_node_effect:
  "research_critique_node sv s h = (r, s1, h1) \<Longrightarrow>
     entered h1 = entered h \<and> kept s s1 \<and>
     (\<forall>u. r = Inr u \<longrightarrow> (\<exists>c. u = [Set_content c] \<and> prefix (content s) c))"
  by (auto simp: research_critique_node_def Let_def kept_def
      split: prod.splits sum.splits option.splits
      dest!: call_mistral_api_entered search_queries_effect)

lemma node_function_effect:
  assumes "node_function n sv s h = (r, s1, h1)"
  shows "entered h1 = entered h \<and> kept s s1 \<and>
         (\<forall>u. r = Inr u \<longrightarrow> updated n s (apply_update s1 u))"
proof (cases n)
  case planner
  with assms have "plan_node sv s h = (r, s1, h1)" by simp
  from plan_node_effect [OF this]
  obtain "s1 = s" "entered h1 = entered h" "\<forall>u. r = Inr u \<longrightarrow> (\<exists>t. u = [Set_plan t])"
    by blast
  then show ?thesis
    by (auto simp: planner kept_def updated_def apply_update_def)
next
  case research_plan
  with assms have "research_plan_node sv s h = (r, s1, h1)" by simp
  from research_plan_node_effect [OF this]
  have "entered h1 = entered h" and k: "kept s s1"
    and "\<forall>u. r = Inr u \<longrightarrow> (\<exists>c. u = [Set_content c] \<and> prefix (content s) c)"
    by blast+
  then show ?thesis
    by (auto simp: research_plan kept_def updated_def apply_update_def)
next
  case generate
  with assms have "generation_node sv s h = (r, s1, h1)" by simp
  from generation_node_effect [OF this]
  obtain "s1 = s" "entered h1 = entered h"
    "\<forall>u. r = Inr u \<longrightarrow> (\<exists>t. u = [Set_draft t, Set_revision_number (get_revision_number s + 1)])"
    by blast
  then show ?thesis
    by (auto simp: generate kept_def updated_def apply_update_def)
next
  case reflect
  with assms have "reflection_node sv s h = (r, s1, h1)" by simp
  from reflection_node_effect [OF this]
  obtain "s1 = s" "entered h1 = entered h" "\<forall>u. r = Inr u \<longrightarrow> (\<exists>t. u = [Set_critique t])"
    by blast
  then show ?thesis
    by (auto simp: reflect kept_def updated_def apply_update_def)
next
  case research_critique
  with assms have "research_critique_node sv s h = (r, s1, h1)" by simp
  from research_critique_node_effect [OF this]
  have "entered h1 = entered h" and k: "kept s s1"
    and "\<forall>u. r = Inr u \<longrightarrow> (\<exists>c. u = [Set_content c] \<and> prefix (content s) c)"
    by blast+
  then show ?thesis
    by (auto simp: research_critique kept_def updated_def apply_update_def)
qed

lemma step_history:
  assumes "step sv n s h = (r, s2, h2)"
  shows "entered h2 = entered h @ [n]"
proof -
  obtain r1 s1 h1 where nf: "node_function n sv s (h @ [Enter n]) = (r1, s1, h1)"
    by (cases "node_function n sv s (h @ [Enter n])")
  from node_function_effect [OF nf] have "entered h1 = entered h @ [n]"
    by (simp add: entered_append)
  moreover from assms nf have "h2 = h1"
    by (cases r1) (simp_all add: step_def Let_def)
  ultimately show ?thesis by simp
qed

lemma step_Inr:
  assumes "step sv n s h = (Inr t, s2, h2)"
  shows "updated n s s2 \<and> edge n s2 = Inr t"
proof -
  obtain r1 s1 h1 where nf: "node_function n sv s (h @ [Enter n]) = (r1, s1, h1)"
    by (cases "node_function n sv s (h @ [Enter n])")
  show ?thesis
  proof (cases r1)
    case (Inl e)
    with assms nf show ?thesis by (simp add: step_def)
  next
    case (Inr u)
    with assms nf have "s2 = apply_update s1 u" and "edge n s2 = Inr t"
      by (auto simp add: step_def Let_def)
    with node_function_effect [OF nf] Inr show ?thesis by simp
  qed
qed

lemma step_Inl:
  assumes "step sv n s h = (Inl e, s2, h2)"
  shows "task s2 = task s \<and> max_revisions s2 = max_revisions s \<and> prefix (content s) (content s2)"
proof -
  obtain r1 s1 h1 where nf: "node_function n sv s (h @ [Enter n]) = (r1, s1, h1)"
    by (cases "node_function n sv s (h @ [Enter n])")
  show ?thesis
  proof (cases r1)
    case (Inl e1)
    with assms nf have "s2 = s1" by (simp add: step_def)
    with node_function_effect [OF nf] show ?thesis by (simp add: kept_def)
  next
    case (Inr u)
    with assms nf have "s2 = apply_update s1 u" by (auto simp add: step_def Let_def)
    with node_function_effect [OF nf] Inr show ?thesis by (simp add: updated_def)
  qed
qed

lemma step_cases:
  obtains (raised) e s1 h1 where "step sv n s h = (Inl e, s1, h1)"
  | (ended) s1 h1 where "step sv n s h = (Inr END, s1, h1)"
  | (moved) n1 s1 h1 where "step sv n s h = (Inr (To n1), s1, h1)"
proof -
  obtain r s1 h1 where st: "step sv n s h = (r, s1, h1)" by (cases "step sv n s h")
  show ?thesis
  proof (cases r)
    case (Inl e)
    with st raised show ?thesis by simp
  next
    case (Inr t)
    with st ended moved show ?thesis by (cases t) simp_all
  qed
qed

lemma run_graph_Inl:
  "step sv n s h = (Inl e, s1, h1) \<Longrightarrow> run_graph sv (Suc k) n s h = Aborted e s1 h1"
  by simp

lemma run_graph_END:
  "step sv n s h = (Inr END, s1, h1) \<Longrightarrow> run_graph sv (Suc k) n s h = Finished s1 h1"
  by simp

lemma run_graph_To:
  "step sv n s h = (Inr (To n1), s1, h1) \<Longrightarrow> run_graph sv (Suc k) n s h = run_graph sv k n1 s1 h1"
  by simp

lemma step_END_generate:
  assumes "step sv n s h = (Inr END, s1, h1)"
  shows "n = generate \<and> max_revisions s < get_revision_number s + 1"
proof -
  from step_Inr [OF assms] have u: "updated n s s1" and e: "edge n s1 = Inr END" by simp_all
  from e have n: "n = generate" by (cases n) simp_all
  with u e show ?thesis
    by (auto simp: updated_def should_continue_def split: if_splits)
qed

lemma step_To_generate:
  assumes "step sv generate s h = (Inr (To n1), s1, h1)"
  shows "n1 = reflect \<and> get_revision_number s + 1 \<le> max_revisions s"
proof -
  from step_Inr [OF assms] have u: "updated generate s s1" and e: "edge generate s1 = Inr (To n1)"
    by simp_all
  then show ?thesis
    by (auto simp: updated_def should_continue_def split: if_splits)
qed

lemma step_To_other:
  assumes "step sv n s h = (Inr (To n1), s1, h1)" and "n \<noteq> generate"
  shows "distance n = Suc (distance n1) \<and> drafts_left s1 = drafts_left s \<and>
         get_revision_number s1 = get_revision_number s"
proof -
  from step_Inr [OF assms(1)] have u: "updated n s s1" and e: "edge n s1 = Inr (To n1)"
    by simp_all
  from e assms(2) have "distance n = Suc (distance n1)" by (cases n) auto
  moreover from u assms(2) have "get_revision_number s1 = get_revision_number s"
    "max_revisions s1 = max_revisions s"
    by (simp_all add: updated_def get_revision_number_def)
  ultimately show ?thesis by (simp add: drafts_left_def)
qed

text \<open>A run that reaches \<^verbatim>\<open>END\<close> had the steps it needed, wrote the drafts that were
  left, and made exactly the steps it needed.\<close>

lemma run_graph_finished:
  "run_graph sv k n s h = Finished s' h' \<Longrightarrow>
     steps_needed n s \<le> k \<and>
     revision_number s' = Some (get_revision_number s + drafts_left s) \<and>
     count_list (entered h') generate = count_list (entered h) generate + nat (drafts_left s) \<and>
     length (entered h') = length (entered h) + steps_needed n s"
proof (induction k arbitrary: n s h)
  case 0
  then show ?case by simp
next
  case (Suc k)
  show ?case
  proof (cases rule: step_cases [of sv n s h])
    case (raised e s1 h1)
    with Suc.prems show ?thesis by simp
  next
    case (ended s1 h1)
    with Suc.prems have eq: "s' = s1" "h' = h1" by simp_all
    from step_END_generate [OF ended] have n: "n = generate"
      and lt: "max_revisions s < get_revision_number s + 1" by simp_all
    from step_Inr [OF ended] have "updated n s s1" by simp
    with n have "revision_number s1 = Some (get_revision_number s + 1)" by (simp add: updated_def)
    moreover from lt have "drafts_left s = 1" by (simp add: drafts_left_def)
    moreover from step_history [OF ended] n
    have "entered h1 = entered h @ [generate]" by simp
    ultimately show ?thesis using eq n by (simp add: steps_needed_def)
  next
    case (moved n1 s1 h1)
    with Suc.prems have run: "run_graph sv k n1 s1 h1 = Finished s' h'" by simp
    from Suc.IH [OF run]
    have ih: "steps_needed n1 s1 \<le> k"
      "revision_number s' = Some (get_revision_number s1 + drafts_left s1)"
      "count_list (entered h') generate = count_list (entered h1) generate + nat (drafts_left s1)"
      "length (entered h') = length (entered h1) + steps_needed n1 s1"
      by simp_all
    from step_history [OF moved] have hist: "entered h1 = entered h @ [n]" .
    show ?thesis
    proof (cases "n = generate")
      case True
      with moved step_To_generate [of sv s h n1 s1 h1]
      have le: "get_revision_number s + 1 \<le> max_revisions s" and n1: "n1 = reflect" by simp_all
      from step_Inr [OF moved] True have r1: "get_revision_number s1 = get_revision_number s + 1"
        and m1: "max_revisions s1 = max_revisions s"
        by (simp_all add: updated_def get_revision_number_def)
      from le r1 m1 have d: "drafts_left s = drafts_left s1 + 1" "0 < drafts_left s1"
        by (simp_all add: drafts_left_def)
      then have "steps_needed n s = Suc (steps_needed n1 s1)"
        using True n1 by (simp add: steps_needed_def nat_add_distrib)
      with ih r1 hist True d show ?thesis by simp
    next
      case False
      from step_To_other [OF moved False]
      have "steps_needed n s = Suc (steps_needed n1 s1)" "drafts_left s1 = drafts_left s"
        "get_revision_number s1 = get_revision_number s"
        by (simp_all add: steps_needed_def)
      with ih hist False show ?thesis by simp
    qed
  qed
qed

text \<open>A run that is cut did not have the steps it needed.\<close>

lemma run_graph_out_of_steps:
  "run_graph sv k n s h = OutOfSteps s' h' \<Longrightarrow> k < steps_needed n s"
proof (induction k arbitrary: n s h)
  case 0
  then show ?case by (cases n) (simp_all add: steps_needed_def)
next
  case (Suc k)
  show ?case
  proof (cases rule: step_cases [of sv n s h])
    case (raised e s1 h1)
    with Suc.prems show ?thesis by simp
  next
    case (ended s1 h1)
    with Suc.prems show ?thesis by simp
  next
    case (moved n1 s1 h1)
    with Suc.prems have run: "run_graph sv k n1 s1 h1 = OutOfSteps s' h'" by simp
    from Suc.IH [OF run] have ih: "k < steps_needed n1 s1" .
    show ?thesis
    proof (cases "n = generate")
      case True
      with moved step_To_generate [of sv s h n1 s1 h1]
      have le: "get_revision_number s + 1 \<le> max_revisions s" and n1: "n1 = reflect" by simp_all
      from step_Inr [OF moved] True have r1: "get_revision_number s1 = get_revision_number s + 1"
        and m1: "max_revisions s1 = max_revisions s"
        by (simp_all add: updated_def get_revision_number_def)
      from le r1 m1 have d: "drafts_left s = drafts_left s1 + 1" "0 < drafts_left s1"
        by (simp_all add: drafts_left_def)
      then have "steps_needed n s = Suc (steps_needed n1 s1)"
        using True n1 by (simp add: steps_needed_def nat_add_distrib)
      with ih show ?thesis by simp
    next
      case False
      from step_To_other [OF moved False]
      have "steps_needed n s = Suc (steps_needed n1 s1)"
        by (simp_all add: steps_needed_def)
      with ih show ?thesis by simp
    qed
  qed
qed

subsection \<open>The search resolver\<close>

lemma item_field: "item r key = Inr v \<longleftrightarrow> field key r = Some v"
  by (cases r) (auto split: option.splits)

lemma dict_get_field:
  "dict_get x key d = Inr v \<longleftrightarrow> (\<exists>kv. x = JObj kv) \<and> v = (case field key x of None \<Rightarrow> d | Some w \<Rightarrow> w)"
  by (cases x) auto

lemma contents_all:
  "\<forall>r\<in>set rs. field key r \<noteq> None \<Longrightarrow> key = lit ''content'' \<Longrightarrow>
     contents rs = Inr (map (\<lambda>r. the (field key r)) rs)"
proof (induction rs)
  case Nil
  then show ?case by simp
next
  case (Cons r rs)
  then obtain v where v: "field (lit ''content'') r = Some v" by auto
  then have "item r (lit ''content'') = Inr v" by (simp add: item_field)
  with Cons v show ?case by simp
qed



lemma contents_complete:
  "contents rs = Inr cs \<Longrightarrow> r \<in> set rs \<Longrightarrow> field (lit ''content'') r \<noteq> None"
proof (induction rs arbitrary: cs)
  case Nil
  then show ?case by simp
next
  case (Cons a rs)
  from Cons.prems(1) obtain c cs' where a: "item a (lit ''content'') = Inr c"
    and rest: "contents rs = Inr cs'"
    by (auto split: sum.splits)
  from a have "field (lit ''content'') a = Some c" by (simp add: item_field)
  with Cons.prems(2) Cons.IH [OF rest] show ?case by auto
qed

lemma contents_head: "contents (r # rs) = Inr cs \<Longrightarrow> \<exists>kv. r = JObj kv"
  by (cases r) (auto split: sum.splits)


lemma snippets_dicts:
  "\<forall>r\<in>set rs. \<exists>kv. r = JObj kv \<Longrightarrow>
     snippets rs =
       Inr (map (\<lambda>r. case field (lit ''snippet'') r of None \<Rightarrow> JStr [] | Some v \<Rightarrow> v) rs)"
  by (induction rs) auto

text \<open>An iterable that is true and whose elements all are dicts is a list.\<close>

lemma elements_of_dicts:
  assumes "truthy rs" and "elements rs = Inr es" and "es = [] \<or> (\<exists>kv. hd es = JObj kv)"
  shows "rs = JArr es \<and> es \<noteq> []"
  using assms by (cases rs) (auto simp: neq_Nil_conv split: prod.splits)

lemma try_tavily_Some:
  assumes "try_tavily sv q m h = Some cs"
  shows "\<exists>resp rs. tavily_search sv h q m = Inr resp \<and> field (lit ''results'') resp = Some (JArr rs) \<and>
           rs \<noteq> [] \<and> contents rs = Inr cs"
proof -
  from assms obtain resp rs es where r: "tavily_search sv h q m = Inr resp"
    and g: "dict_get resp (lit ''results'') (JArr []) = Inr rs"
    and t: "truthy rs" and e: "elements rs = Inr es" and c: "contents es = Inr cs"
    by (auto simp: try_tavily_def split: sum.splits if_splits)
  have "es = [] \<or> (\<exists>kv. hd es = JObj kv)"
    using c contents_head by (cases es) auto
  from elements_of_dicts [OF t e this] have rs: "rs = JArr es" "es \<noteq> []" by simp_all
  from g rs have "field (lit ''results'') resp = Some (JArr es)"
    by (cases resp) (auto split: option.splits)
  with r rs c show ?thesis by blast
qed

lemma try_tavily_None: "try_tavily sv q m h = None \<longleftrightarrow> primary_failed sv q m h"
proof
  assume n: "try_tavily sv q m h = None"
  show "primary_failed sv q m h"
  proof (rule ccontr)
    assume "\<not> primary_failed sv q m h"
    then obtain resp rs where r: "tavily_search sv h q m = Inr resp"
      and f: "field (lit ''results'') resp = Some (JArr rs)" and ne: "rs \<noteq> []"
      and all: "\<forall>r\<in>set rs. field (lit ''content'') r \<noteq> None"
      by (auto simp: primary_failed_def split: sum.splits option.splits json.splits)
    from f obtain kv where "resp = JObj kv" by (cases resp) auto
    with f have "dict_get resp (lit ''results'') (JArr []) = Inr (JArr rs)" by simp
    with r ne contents_all [OF all refl] have "try_tavily sv q m h \<noteq> None"
      by (simp add: try_tavily_def)
    with n show False by simp
  qed
next
  assume p: "primary_failed sv q m h"
  show "try_tavily sv q m h = None"
  proof (rule ccontr)
    assume "try_tavily sv q m h \<noteq> None"
    then obtain cs where "try_tavily sv q m h = Some cs" by auto
    from try_tavily_Some [OF this] obtain resp rs where
      "tavily_search sv h q m = Inr resp" "field (lit ''results'') resp = Some (JArr rs)"
      "rs \<noteq> []" "contents rs = Inr cs" by blast
    with p contents_complete show False
      by (auto simp: primary_failed_def)
  qed
qed

text \<open>
  C4. When Tavily answers with a dict that holds under \<open>results\<close> a list, not empty, of
  dicts that each have a \<open>content\<close>, the resolver returns those contents, in order, and
  the history grows by the one request to Tavily: Google is not asked.
\<close>

theorem C4_short_circuit:
  assumes "tavily_search sv h q m = Inr resp"
    and "field (lit ''results'') resp = Some (JArr rs)" and "rs \<noteq> []"
    and "\<forall>r\<in>set rs. field (lit ''content'') r \<noteq> None"
  shows "search_with_fallback sv q m h =
           (Inr (map (\<lambda>r. the (field (lit ''content'') r)) rs), h @ [TavilySearch q m])"
proof -
  from assms(2) obtain kv where "resp = JObj kv" by (cases resp) auto
  with assms(2) have "dict_get resp (lit ''results'') (JArr []) = Inr (JArr rs)" by simp
  with assms(1,3) contents_all [OF assms(4) refl]
  have "try_tavily sv q m h = Some (map (\<lambda>r. the (field (lit ''content'') r)) rs)"
    by (simp add: try_tavily_def)
  then show ?thesis by (simp add: search_with_fallback_def)
qed

theorem C4_short_circuit_witness:
  "search_with_fallback demo_services (lit ''q'') 2 [] =
     (Inr [JStr (lit ''first''), JStr (lit ''second'')], [TavilySearch (lit ''q'') 2])"
  using C4_short_circuit [of demo_services "[]" "lit ''q''" 2
      "JObj [(lit ''results'',
            JArr [JObj [(lit ''content'', JStr (lit ''first''))],
                  JObj [(lit ''content'', JStr (lit ''second''))]])]"
      "[JObj [(lit ''content'', JStr (lit ''first''))],
        JObj [(lit ''content'', JStr (lit ''second''))]]"]
  by (simp add: demo_services_def demo_tavily_def)


text \<open>What the fallback does on answers of the documented shape, and when it returns
  nothing.\<close>

lemma fallback_behaviour:
  assumes "primary_failed sv q m h"
  shows "((\<exists>k. GOOGLE_API_KEY sv = Some k \<and> k \<noteq> []) \<and> (\<exists>c. GOOGLE_CSE_ID sv = Some c \<and> c \<noteq> []) \<and>
          requests_get sv (h @ [TavilySearch q m]) q m = Inr g \<and>
          field (lit ''items'') g = Some (JArr its) \<and> its \<noteq> [] \<and> (\<forall>r\<in>set its. \<exists>kv. r = JObj kv)
          \<longrightarrow> search_with_fallback sv q m h =
                (Inr (map (\<lambda>r. case field (lit ''snippet'') r of None \<Rightarrow> JStr [] | Some v \<Rightarrow> v) its),
                 h @ [TavilySearch q m, GoogleGet q m]))
       \<and> (GOOGLE_API_KEY sv = None \<or> GOOGLE_API_KEY sv = Some [] \<or>
          GOOGLE_CSE_ID sv = None \<or> GOOGLE_CSE_ID sv = Some [] \<or>
          (\<exists>e. requests_get sv (h @ [TavilySearch q m]) q m = Inl e) \<or>
          (\<exists>kv. requests_get sv (h @ [TavilySearch q m]) q m = Inr (JObj kv) \<and>
                (map_of kv (lit ''items'') = None \<or> map_of kv (lit ''items'') = Some (JArr [])))
          \<longrightarrow> fst (search_with_fallback sv q m h) = Inr [])"
proof -
  from assms have t: "try_tavily sv q m h = None" by (simp add: try_tavily_None)
  have one: "search_with_fallback sv q m h =
                (Inr (map (\<lambda>r. case field (lit ''snippet'') r of None \<Rightarrow> JStr [] | Some v \<Rightarrow> v) its),
                 h @ [TavilySearch q m, GoogleGet q m])"
    if c0: "\<exists>k. GOOGLE_API_KEY sv = Some k \<and> k \<noteq> []" "\<exists>c. GOOGLE_CSE_ID sv = Some c \<and> c \<noteq> []"
      and g: "requests_get sv (h @ [TavilySearch q m]) q m = Inr g"
      and f: "field (lit ''items'') g = Some (JArr its)" and ne: "its \<noteq> []"
      and d: "\<forall>r\<in>set its. \<exists>kv. r = JObj kv"
  proof -
    from c0 have c: "is_set (GOOGLE_API_KEY sv)" "is_set (GOOGLE_CSE_ID sv)" by auto
    from f obtain kv where kv: "g = JObj kv" "map_of kv (lit ''items'') = Some (JArr its)"
      by (cases g) auto
    then have "kv \<noteq> []" by auto
    with kv g c ne snippets_dicts [OF d] show ?thesis
      by (simp add: search_with_fallback_def google_search_def t)
  qed
  have two: "fst (search_with_fallback sv q m h) = Inr []"
    if "GOOGLE_API_KEY sv = None \<or> GOOGLE_API_KEY sv = Some [] \<or>
        GOOGLE_CSE_ID sv = None \<or> GOOGLE_CSE_ID sv = Some [] \<or>
        (\<exists>e. requests_get sv (h @ [TavilySearch q m]) q m = Inl e) \<or>
        (\<exists>kv. requests_get sv (h @ [TavilySearch q m]) q m = Inr (JObj kv) \<and>
              (map_of kv (lit ''items'') = None \<or> map_of kv (lit ''items'') = Some (JArr [])))"
    using that
    by (auto simp: search_with_fallback_def google_search_def t Let_def)
  from one two show ?thesis by blast
qed

text \<open>
  C3. The code does not do what the claim says when Google's answer has another shape
  than expected: with Tavily down and Google configured and answering with a JSON list,
  \<^verbatim>\<open>search_response.get\<close> raises \<^verbatim>\<open>AttributeError\<close> outside every \<^verbatim>\<open>try\<close>, and the
  resolver raises it to its caller instead of returning the empty list.
\<close>

theorem C3_malformed_secondary:
  "search_with_fallback odd_services (lit ''q'') 2 [] =
     (Inl AttributeError, [TavilySearch (lit ''q'') 2, GoogleGet (lit ''q'') 2])"
  by (simp add: Let_def search_with_fallback_def try_tavily_def google_search_def odd_services_def
      demo_services_def no_tavily_def odd_google_def)




lemma fallback_examples:
  "search_with_fallback fallback_services (lit ''q'') 2 [] =
     (Inr [JStr (lit ''alpha''), JStr []], [TavilySearch (lit ''q'') 2, GoogleGet (lit ''q'') 2]) \<and>
   search_with_fallback down_services (lit ''q'') 2 [] =
     (Inr [], [TavilySearch (lit ''q'') 2, GoogleGet (lit ''q'') 2]) \<and>
   search_with_fallback bare_services (lit ''q'') 2 [] = (Inr [], [TavilySearch (lit ''q'') 2])"
  by (simp add: Let_def search_with_fallback_def try_tavily_def google_search_def fallback_services_def
      down_services_def bare_services_def demo_services_def no_tavily_def no_google_def
      demo_google_def)

subsection \<open>Runs\<close>

lemma strings_texts: "list_all is_text vs \<Longrightarrow> \<exists>ss. strings vs = Inr ss"
proof (induction vs)
  case Nil
  then show ?case by simp
next
  case (Cons v vs)
  then obtain ss where "strings vs = Inr ss" by auto
  with Cons.prems show ?case by (cases v) simp_all
qed

lemma parse_queries_text: "\<exists>qs. parse_queries (JStr t) = Inr qs"
  by (simp add: parse_queries_def)

lemma search_queries_quiet:
  assumes "quiet sv"
  shows "list_all is_text found \<Longrightarrow>
         \<exists>found1 h1. search_queries sv qs found h = (None, found1, h1) \<and> list_all is_text found1"
proof (induction qs arbitrary: found h)
  case Nil
  then show ?case by simp
next
  case (Cons q qs)
  from assms obtain rs where rs: "fst (search_with_fallback sv q 2 h) = Inr rs" "list_all is_text rs"
    unfolding quiet_def by blast
  then obtain h' where sw: "search_with_fallback sv q 2 h = (Inr rs, h')"
    by (cases "search_with_fallback sv q 2 h") simp
  from Cons.prems rs(2) have "list_all is_text (found @ rs)" by simp
  from Cons.IH [OF this, of h'] sw show ?case by simp
qed

lemma call_mistral_api_quiet:
  assumes "quiet sv"
  obtains resp t h1 where "call_mistral_api sv ms h = (Inr resp, h1)"
    and "choice_text resp = Inr (JStr t)"
proof -
  from assms obtain resp t where "requests_post sv h (build_prompt sv ms) = Inr resp"
    and "choice_text resp = Inr (JStr t)"
    unfolding quiet_def by blast
  then show ?thesis using that by (simp add: call_mistral_api_def)
qed

lemma research_quiet:
  assumes "quiet sv" and "list_all is_text (content s)"
    and "call_mistral_api sv ms h = (Inr resp, h1)" and "choice_text resp = Inr (JStr t)"
  shows "\<exists>found h2.
     (case parse_queries (JStr t) of
        Inl e \<Rightarrow> (Inl e, s, h1)
      | Inr queries \<Rightarrow>
          (let aliased = (content s \<noteq> []);
               found0 = (if aliased then content s else [])
           in case search_queries sv (take 3 queries) found0 h1 of
                (raised, found, h2) \<Rightarrow>
                  ((case raised of Some e \<Rightarrow> Inl e | None \<Rightarrow> Inr [Set_content found]),
                   if aliased then s\<lparr>content := found\<rparr> else s, h2)))
     = (Inr [Set_content found], if content s \<noteq> [] then s\<lparr>content := found\<rparr> else s, h2)
     \<and> list_all is_text found"
proof -
  obtain qs where qs: "parse_queries (JStr t) = Inr qs" using parse_queries_text by blast
  have "list_all is_text (if content s \<noteq> [] then content s else [])" using assms(2) by simp
  from search_queries_quiet [OF assms(1) this, of "take 3 qs" h1]
  obtain found h2 where
    "search_queries sv (take 3 qs) (if content s \<noteq> [] then content s else []) h1 = (None, found, h2)"
    "list_all is_text found" by blast
  with qs show ?thesis by (simp add: Let_def)
qed

lemma node_function_quiet:
  assumes "quiet sv" and "list_all is_text (content s)"
  shows "\<exists>u s1 h1. node_function n sv s h = (Inr u, s1, h1) \<and>
           list_all is_text (content (apply_update s1 u))"
proof (cases n)
  case planner
  from assms(1) obtain resp t h1 where
    "call_mistral_api sv [(lit ''system'', JStr PLAN_PROMPT), (lit ''user'', JStr (task s))] h
       = (Inr resp, h1)"
    "choice_text resp = Inr (JStr t)"
    by (rule call_mistral_api_quiet)
  with planner assms(2) show ?thesis by (simp add: plan_node_def apply_update_def)
next
  case research_plan
  from assms(1) obtain resp t h1 where c:
    "call_mistral_api sv [(lit ''system'', JStr RESEARCH_PLAN_PROMPT), (lit ''user'', JStr (task s))] h
       = (Inr resp, h1)"
    "choice_text resp = Inr (JStr t)"
    by (rule call_mistral_api_quiet)
  from research_quiet [OF assms c] c research_plan show ?thesis
    by (auto simp: research_plan_node_def apply_update_def)
next
  case generate
  have "list_all is_text (if content s \<noteq> [] then content s else [])" using assms(2) by simp
  from strings_texts [OF this]
  obtain ss where ss: "strings (if content s \<noteq> [] then content s else []) = Inr ss" ..
  from assms(1) obtain resp t h1 where
    "call_mistral_api sv
       [(lit ''system'', JStr (WRITER_PROMPT (join (lit ''\<newline>\<newline>'') ss))),
        (lit ''user'',
         JStr (task s @ lit ''\<newline>\<newline>Here is my plan:\<newline>\<newline>'' @ format sv (plan s)))] h
       = (Inr resp, h1)"
    "choice_text resp = Inr (JStr t)"
    by (rule call_mistral_api_quiet)
  with generate ss assms(2) show ?thesis
    by (simp add: generation_node_def Let_def apply_update_def)
next
  case reflect
  from assms(1) obtain resp t h1 where
    "call_mistral_api sv [(lit ''system'', JStr REFLECTION_PROMPT), (lit ''user'', draft s)] h
       = (Inr resp, h1)"
    "choice_text resp = Inr (JStr t)"
    by (rule call_mistral_api_quiet)
  with reflect assms(2) show ?thesis by (simp add: reflection_node_def apply_update_def)
next
  case research_critique
  from assms(1) obtain resp t h1 where c:
    "call_mistral_api sv [(lit ''system'', JStr RESEARCH_CRITIQUE_PROMPT), (lit ''user'', critique s)] h
       = (Inr resp, h1)"
    "choice_text resp = Inr (JStr t)"
    by (rule call_mistral_api_quiet)
  from research_quiet [OF assms c] c research_critique show ?thesis
    by (auto simp: research_critique_node_def apply_update_def)
qed

lemma edge_updated:
  assumes "updated n s s2"
  shows "\<exists>t. edge n s2 = Inr t"
  using assms by (cases n) (simp_all add: updated_def should_continue_def)

lemma step_quiet:
  assumes "quiet sv" and "list_all is_text (content s)"
  shows "\<exists>t s2 h2. step sv n s h = (Inr t, s2, h2) \<and> list_all is_text (content s2)"
proof -
  from node_function_quiet [OF assms] obtain u s1 h1 where
    nf: "node_function n sv s (h @ [Enter n]) = (Inr u, s1, h1)"
    and t: "list_all is_text (content (apply_update s1 u))" by blast
  from node_function_effect [OF nf] have "updated n s (apply_update s1 u)" by simp
  from edge_updated [OF this] obtain t where "edge n (apply_update s1 u) = Inr t" ..
  with nf t show ?thesis by (simp add: step_def Let_def)
qed

lemma run_graph_quiet:
  assumes "quiet sv"
  shows "list_all is_text (content s) \<Longrightarrow> \<not> aborted (run_graph sv k n s h)"
proof (induction k arbitrary: n s h)
  case 0
  then show ?case by simp
next
  case (Suc k)
  from step_quiet [OF assms Suc.prems] obtain t s2 h2 where
    st: "step sv n s h = (Inr t, s2, h2)" and c: "list_all is_text (content s2)" by blast
  show ?case
  proof (cases t)
    case END
    with st show ?thesis by simp
  next
    case (To n1)
    with st Suc.IH [OF c, of n1 h2] show ?thesis by simp
  qed
qed

lemma outcome_cases: "finished x \<or> aborted x \<or> out_of_steps x"
  by (cases x) simp_all

text \<open>
  C1, as stated, fails twice. A run started with \<open>revision_number = 0\<close> and
  \<open>max_revisions = 3\<close> whose completion endpoint is down is aborted by the planner's
  exception: it does not reach \<^verbatim>\<open>END\<close> and Generate never runs. And a run with
  \<open>max_revisions = 8\<close> does not reach \<^verbatim>\<open>END\<close> whatever the services answer, because it
  would need 27 steps.
\<close>

theorem C1_drafts_counterexample:
  "revision_number (start 3) = Some 0 \<and> 0 \<le> max_revisions (start 3) \<and>
   \<not> finished (graph_invoke mute_services (start 3) []) \<and>
   count_list (entered (history (graph_invoke mute_services (start 3) []))) generate = 0 \<and>
   revision_number (start 8) = Some 0 \<and> 0 \<le> max_revisions (start 8) \<and>
   \<not> finished (graph_invoke demo_services (start 8) [])"
proof -
  have "step mute_services planner (start 3) [] =
          (Inl HTTPError, start 3,
           [Enter planner,
            MistralPost (build_prompt mute_services
              [(lit ''system'', JStr PLAN_PROMPT), (lit ''user'', JStr (task (start 3)))])])"
    by (simp add: step_def plan_node_def call_mistral_api_def mute_services_def no_post_def)
  then have a: "graph_invoke mute_services (start 3) [] =
          Aborted HTTPError (start 3)
           [Enter planner,
            MistralPost (build_prompt mute_services
              [(lit ''system'', JStr PLAN_PROMPT), (lit ''user'', JStr (task (start 3)))])]"
    by (simp add: graph_invoke_def recursion_limit_def eval_nat_numeral)
  have b: "\<not> finished (graph_invoke demo_services (start 8) [])"
  proof
    assume "finished (graph_invoke demo_services (start 8) [])"
    then obtain s' h' where "run_graph demo_services 25 planner (start 8) [] = Finished s' h'"
      by (cases "graph_invoke demo_services (start 8) []")
         (simp_all add: graph_invoke_def recursion_limit_def)
    from run_graph_finished [OF this] have "steps_needed planner (start 8) \<le> 25" by simp
    then show False
      by (simp add: steps_needed_def drafts_left_def get_revision_number_def start_def)
  qed
  from a b show ?thesis by (simp add: start_def)
qed

text \<open>
  C1, amended. For a run started with \<open>revision_number = 0\<close> and \<open>max_revisions = N \<ge> 0\<close>:
  if the run reaches \<^verbatim>\<open>END\<close>, then \<open>N \<le> 7\<close>, Generate ran exactly \<open>N + 1\<close> times and
  \<open>revision_number\<close> is \<open>N + 1\<close>; if the run is cut by the recursion limit, then \<open>N \<ge> 8\<close>;
  a run in which no stage raises reaches \<^verbatim>\<open>END\<close> for \<open>N \<le> 7\<close> and is cut for \<open>N \<ge> 8\<close>;
  no stage raises when the completion always answers with a text, the resolver always
  returns strings, and \<open>content\<close> starts with strings only; and every Generate that
  returns sets \<open>revision_number\<close> to one more than it read.
\<close>

theorem C1_drafts:
  assumes "revision_number s = Some 0" and "0 \<le> max_revisions s"
  shows "(finished (graph_invoke sv s h) \<longrightarrow>
            max_revisions s \<le> 7 \<and>
            revision_number (final_state (graph_invoke sv s h)) = Some (max_revisions s + 1) \<and>
            count_list (entered (history (graph_invoke sv s h))) generate =
              count_list (entered h) generate + nat (max_revisions s + 1))
       \<and> (out_of_steps (graph_invoke sv s h) \<longrightarrow> 8 \<le> max_revisions s)
       \<and> (\<not> aborted (graph_invoke sv s h) \<longrightarrow>
            (if max_revisions s \<le> 7 then finished (graph_invoke sv s h)
             else out_of_steps (graph_invoke sv s h)))
       \<and> (quiet sv \<and> list_all is_text (content s) \<longrightarrow> \<not> aborted (graph_invoke sv s h))
       \<and> (\<forall>st k t s2 k2. step sv generate st k = (Inr t, s2, k2) \<longrightarrow>
            revision_number s2 = Some (get_revision_number st + 1))"
proof -
  from assms have d: "get_revision_number s = 0" "drafts_left s = max_revisions s + 1"
    by (simp_all add: get_revision_number_def drafts_left_def)
  with assms(2) have n: "int (steps_needed planner s) = 3 * (max_revisions s + 1)"
    by (simp add: steps_needed_def)
  have a: "finished (graph_invoke sv s h) \<longrightarrow>
            max_revisions s \<le> 7 \<and>
            revision_number (final_state (graph_invoke sv s h)) = Some (max_revisions s + 1) \<and>
            count_list (entered (history (graph_invoke sv s h))) generate =
              count_list (entered h) generate + nat (max_revisions s + 1)"
  proof (cases "graph_invoke sv s h")
    case (Finished s' h')
    then have "run_graph sv 25 planner s h = Finished s' h'"
      by (simp add: graph_invoke_def recursion_limit_def)
    from run_graph_finished [OF this] d n Finished show ?thesis by simp
  qed simp_all
  have b: "out_of_steps (graph_invoke sv s h) \<longrightarrow> 8 \<le> max_revisions s"
  proof (cases "graph_invoke sv s h")
    case (OutOfSteps s' h')
    then have "run_graph sv 25 planner s h = OutOfSteps s' h'"
      by (simp add: graph_invoke_def recursion_limit_def)
    from run_graph_out_of_steps [OF this] n show ?thesis by simp
  qed simp_all
  have c: "\<not> aborted (graph_invoke sv s h) \<longrightarrow>
            (if max_revisions s \<le> 7 then finished (graph_invoke sv s h)
             else out_of_steps (graph_invoke sv s h))"
    using outcome_cases [of "graph_invoke sv s h"] a b by auto
  have q: "quiet sv \<and> list_all is_text (content s) \<longrightarrow> \<not> aborted (graph_invoke sv s h)"
    using run_graph_quiet [of sv s recursion_limit planner h] by (simp add: graph_invoke_def)
  have e: "\<forall>st k t s2 k2. step sv generate st k = (Inr t, s2, k2) \<longrightarrow>
            revision_number s2 = Some (get_revision_number st + 1)"
    using step_Inr by (fastforce simp: updated_def)
  from a b c q e show ?thesis by blast
qed

lemma quiet_demo: "quiet demo_services"
  by (simp add: quiet_def demo_services_def demo_post_def demo_tavily_def choice_text_def
      search_with_fallback_def try_tavily_def)

theorem C1_drafts_witness:
  "finished (graph_invoke demo_services (start 2) []) \<and>
   revision_number (final_state (graph_invoke demo_services (start 2) [])) = Some 3 \<and>
   count_list (entered (history (graph_invoke demo_services (start 2) []))) generate = 3 \<and>
   out_of_steps (graph_invoke demo_services (start 8) [])"
  using C1_drafts [of "start 2" demo_services "[]"] C1_drafts [of "start 8" demo_services "[]"]
    quiet_demo
  by (simp add: start_def)

subsection \<open>Stages\<close>

lemma search_queries_extends:
  "search_queries sv qs found h = (r, found1, h1) \<Longrightarrow> prefix h h1"
proof (induction qs arbitrary: found h)
  case Nil
  then show ?case by simp
next
  case (Cons q qs)
  obtain sr h' where sw: "search_with_fallback sv q 2 h = (sr, h')"
    by (cases "search_with_fallback sv q 2 h")
  from search_with_fallback_history [OF sw] have p: "prefix h h'" by auto
  show ?case
  proof (cases sr)
    case (Inl x)
    with Cons.prems sw p show ?thesis by simp
  next
    case (Inr rs)
    with Cons.prems sw have "search_queries sv qs (found @ rs) h' = (r, found1, h1)" by simp
    from Cons.IH [OF this] p show ?thesis by (rule prefix_order.trans [rotated])
  qed
qed

lemma or_empty: "(if xs \<noteq> [] then xs else []) = xs"
  by simp

lemma plain_first:
  assumes "(case call_mistral_api sv ms h of
              (Inl e, h1) \<Rightarrow> (Inl e, s, h1)
            | (Inr response, h1) \<Rightarrow>
                (case choice_text response of
                   Inl e \<Rightarrow> (Inl e, s, h1)
                 | Inr t \<Rightarrow> (Inr (f t), s, h1))) = (r, s1, h1)"
  shows "first_post sv h (build_prompt sv ms) r s s1 h1"
  using assms
  by (auto simp: first_post_def call_mistral_api_def Let_def split: sum.splits)

lemma research_first:
  assumes "(case call_mistral_api sv ms h of
              (Inl e, h1) \<Rightarrow> (Inl e, s, h1)
            | (Inr response, h1) \<Rightarrow>
                (case choice_text response of
                   Inl e \<Rightarrow> (Inl e, s, h1)
                 | Inr t \<Rightarrow>
                     (case parse_queries t of
                        Inl e \<Rightarrow> (Inl e, s, h1)
                      | Inr queries \<Rightarrow>
                          (let aliased = (content s \<noteq> []);
                               found0 = (if aliased then content s else [])
                           in case search_queries sv (take 3 queries) found0 h1 of
                                (raised, found, h2) \<Rightarrow>
                                  ((case raised of
                                      Some e \<Rightarrow> Inl e
                                    | None \<Rightarrow> Inr [Set_content found]),
                                   if aliased then s\<lparr>content := found\<rparr> else s,
                                   h2))))) = (r, s1, h1)"
  shows "first_post sv h (build_prompt sv ms) r s s1 h1"
proof (cases "requests_post sv h (build_prompt sv ms)")
  case (Inl e)
  with assms show ?thesis
    by (simp add: first_post_def call_mistral_api_def Let_def)
next
  case (Inr resp)
  have "prefix (h @ [MistralPost (build_prompt sv ms)]) h1"
  proof (cases "choice_text resp")
    case (Inl e)
    with Inr assms show ?thesis by (simp add: call_mistral_api_def Let_def)
  next
    case t: (Inr t)
    show ?thesis
    proof (cases "parse_queries t")
      case (Inl e)
      with Inr t assms show ?thesis by (simp add: call_mistral_api_def Let_def)
    next
      case qs: (Inr qs)
      obtain raised found h2 where sq:
        "search_queries sv (take 3 qs) (content s) (h @ [MistralPost (build_prompt sv ms)])
           = (raised, found, h2)"
        by (cases "search_queries sv (take 3 qs) (content s)
                     (h @ [MistralPost (build_prompt sv ms)])")
      with Inr t qs assms have "h1 = h2"
        by (simp add: call_mistral_api_def Let_def or_empty)
      with search_queries_extends [OF sq] show ?thesis by simp
    qed
  qed
  with Inr show ?thesis by (simp add: first_post_def)
qed

text \<open>Every stage that has a prompt posts it before anything else, and raises with
  nothing changed when the request fails.\<close>

lemma node_function_first:
  assumes "node_function n sv s h = (r, s1, h1)"
  shows "case stage_prompt sv n s of
           Inl e \<Rightarrow> r = Inl e \<and> s1 = s \<and> h1 = h
         | Inr p \<Rightarrow> first_post sv h p r s s1 h1"
proof (cases n)
  case planner
  with assms have "plan_node sv s h = (r, s1, h1)" by simp
  then have "first_post sv h
      (build_prompt sv [(lit ''system'', JStr PLAN_PROMPT), (lit ''user'', JStr (task s))])
      r s s1 h1"
    unfolding plan_node_def by (rule plain_first)
  with planner show ?thesis by simp
next
  case research_plan
  with assms have "research_plan_node sv s h = (r, s1, h1)" by simp
  then have "first_post sv h
      (build_prompt sv [(lit ''system'', JStr RESEARCH_PLAN_PROMPT), (lit ''user'', JStr (task s))])
      r s s1 h1"
    unfolding research_plan_node_def by (rule research_first)
  with research_plan show ?thesis by simp
next
  case generate
  with assms have g: "generation_node sv s h = (r, s1, h1)" by simp
  show ?thesis
  proof (cases "strings (content s)")
    case (Inl e)
    with g generate show ?thesis by (simp add: generation_node_def or_empty)
  next
    case (Inr ss)
    with g have "first_post sv h
      (build_prompt sv
         [(lit ''system'', JStr (WRITER_PROMPT (join (lit ''\<newline>\<newline>'') ss))),
          (lit ''user'',
           JStr (task s @ lit ''\<newline>\<newline>Here is my plan:\<newline>\<newline>'' @ format sv (plan s)))])
      r s s1 h1"
      unfolding generation_node_def or_empty Let_def by (simp add: plain_first)
    with generate Inr show ?thesis by (simp add: or_empty)
  qed
next
  case reflect
  with assms have "reflection_node sv s h = (r, s1, h1)" by simp
  then have "first_post sv h
      (build_prompt sv [(lit ''system'', JStr REFLECTION_PROMPT), (lit ''user'', draft s)])
      r s s1 h1"
    unfolding reflection_node_def by (rule plain_first)
  with reflect show ?thesis by simp
next
  case research_critique
  with assms have "research_critique_node sv s h = (r, s1, h1)" by simp
  then have "first_post sv h
      (build_prompt sv [(lit ''system'', JStr RESEARCH_CRITIQUE_PROMPT), (lit ''user'', critique s)])
      r s s1 h1"
    unfolding research_critique_node_def by (rule research_first)
  with research_critique show ?thesis by simp
qed

text \<open>
  C10. When the completion request a stage makes fails, the stage raises that
  exception, returns no update, leaves the state as it was, and has done nothing but
  the one request. And a stage that returns an update, or that has changed the state,
  has first posted its prompt and got an answer.
\<close>

theorem C10_atomic:
  "(stage_prompt sv n s = Inr p \<and> requests_post sv h p = Inl e \<longrightarrow>
      node_function n sv s h = (Inl e, s, h @ [MistralPost p]))
   \<and> (\<forall>r s1 h1. node_function n sv s h = (r, s1, h1) \<and> (s1 \<noteq> s \<or> (\<exists>u. r = Inr u)) \<longrightarrow>
        (\<exists>q resp. stage_prompt sv n s = Inr q \<and> requests_post sv h q = Inr resp \<and>
                  prefix (h @ [MistralPost q]) h1))"
proof -
  have one: "node_function n sv s h = (Inl e, s, h @ [MistralPost p])"
    if "stage_prompt sv n s = Inr p" "requests_post sv h p = Inl e"
  proof -
    obtain r s1 h1 where nf: "node_function n sv s h = (r, s1, h1)"
      by (cases "node_function n sv s h")
    from node_function_first [OF nf] that nf show ?thesis by (simp add: first_post_def)
  qed
  have two: "\<exists>q resp. stage_prompt sv n s = Inr q \<and> requests_post sv h q = Inr resp \<and>
                  prefix (h @ [MistralPost q]) h1"
    if nf: "node_function n sv s h = (r, s1, h1)" and ch: "s1 \<noteq> s \<or> (\<exists>u. r = Inr u)"
    for r s1 h1
  proof (cases "stage_prompt sv n s")
    case (Inl e)
    with node_function_first [OF nf] ch show ?thesis by auto
  next
    case (Inr q)
    show ?thesis
    proof (cases "requests_post sv h q")
      case (Inl e)
      with node_function_first [OF nf] Inr ch show ?thesis by (auto simp: first_post_def)
    next
      case (Inr resp)
      with node_function_first [OF nf] \<open>stage_prompt sv n s = Inr q\<close> show ?thesis
        by (auto simp: first_post_def)
    qed
  qed
  from one two show ?thesis by blast
qed

theorem C10_atomic_witness:
  "node_function research_plan mute_services (start 3) [] =
     (Inl HTTPError, start 3,
      [MistralPost (build_prompt mute_services
         [(lit ''system'', JStr RESEARCH_PLAN_PROMPT), (lit ''user'', JStr (lit ''Remote work''))])])"
  using C10_atomic [of mute_services research_plan "start 3"
      "build_prompt mute_services
         [(lit ''system'', JStr RESEARCH_PLAN_PROMPT), (lit ''user'', JStr (lit ''Remote work''))]"
      "[]" HTTPError]
  by (simp add: start_def mute_services_def no_post_def)

lemma generation_node_update:
  assumes "generation_node sv s h = (Inr u, s1, h1)"
  shows "s1 = s \<and> (\<exists>t. u = [Set_draft t, Set_revision_number (get_revision_number s + 1)])"
  using generation_node_effect [OF assms] by simp

text \<open>
  C2. When Generate returns its update, the graph writes it and tests the resulting
  state \<open>s2\<close>: if its \<open>revision_number\<close> exceeds \<open>max_revisions\<close> the step goes to \<^verbatim>\<open>END\<close>
  and the run finishes with \<open>s2\<close>, whose \<open>draft\<close> is the text just written; otherwise the
  step goes to \<open>reflect\<close> and the run continues there. The edge out of \<open>generate\<close> has no
  other target.
\<close>

theorem C2_branch:
  assumes "generation_node sv s (h @ [Enter generate]) = (Inr u, s1, h1)"
    and "s2 = apply_update s1 u"
  shows "(\<exists>r. revision_number s2 = Some r \<and>
            (if r > max_revisions s2
             then step sv generate s h = (Inr END, s2, h1) \<and>
                  run_graph sv (Suc k) generate s h = Finished s2 h1
             else step sv generate s h = (Inr (To reflect), s2, h1) \<and>
                  run_graph sv (Suc k) generate s h = run_graph sv k reflect s2 h1))
       \<and> Set_draft (draft s2) \<in> set u
       \<and> (\<forall>st t. edge generate st = Inr t \<longrightarrow> t = END \<or> t = To reflect)"
proof -
  from generation_node_update [OF assms(1)] obtain t where
    u: "u = [Set_draft t, Set_revision_number (get_revision_number s + 1)]" and "s1 = s"
    by blast
  with assms(2) have r: "revision_number s2 = Some (get_revision_number s + 1)"
    and d: "draft s2 = t"
    by (simp_all add: apply_update_def)
  have st: "step sv generate s h = (should_continue s2, s2, h1)"
    using assms by (simp add: step_def Let_def)
  have "if get_revision_number s + 1 > max_revisions s2
        then step sv generate s h = (Inr END, s2, h1) \<and>
             run_graph sv (Suc k) generate s h = Finished s2 h1
        else step sv generate s h = (Inr (To reflect), s2, h1) \<and>
             run_graph sv (Suc k) generate s h = run_graph sv k reflect s2 h1"
    using st r by (simp add: should_continue_def)
  moreover have "\<forall>st t. edge generate st = Inr t \<longrightarrow> t = END \<or> t = To reflect"
    by (auto simp: should_continue_def split: option.splits if_splits)
  ultimately show ?thesis using r d u by simp
qed

theorem C2_branch_witness:
  "step demo_services generate (start 0) [] =
     (Inr END,
      (start 0)\<lparr>draft := JStr demo_text, revision_number := Some 1\<rparr>,
      [Enter generate,
       MistralPost (build_prompt demo_services
         [(lit ''system'', JStr (WRITER_PROMPT [])),
          (lit ''user'', JStr (lit ''Remote work'' @ lit ''\<newline>\<newline>Here is my plan:\<newline>\<newline>''))])])"
proof -
  have g: "generation_node demo_services (start 0) ([] @ [Enter generate]) =
     (Inr [Set_draft (JStr demo_text), Set_revision_number 1], start 0,
      [Enter generate,
       MistralPost (build_prompt demo_services
         [(lit ''system'', JStr (WRITER_PROMPT [])),
          (lit ''user'', JStr (lit ''Remote work'' @ lit ''\<newline>\<newline>Here is my plan:\<newline>\<newline>''))])])"
    by (simp add: generation_node_def call_mistral_api_def demo_services_def demo_post_def
        choice_text_def start_def get_revision_number_def)
  show ?thesis
    using C2_branch [OF g refl] by (simp add: apply_update_def start_def)
qed

text \<open>
  C5. Whatever node runs and however the step ends, the \<open>content\<close> before the step is a
  prefix of the \<open>content\<close> after it, so its length does not decrease; the same holds
  from any state of a run to the state the run ends with.
\<close>

theorem C5_content_grows:
  "prefix (content s) (content (fst (snd (step sv n s h)))) \<and>
   length (content s) \<le> length (content (fst (snd (step sv n s h)))) \<and>
   prefix (content s) (content (final_state (run_graph sv k n s h))) \<and>
   length (content s) \<le> length (content (final_state (run_graph sv k n s h)))"
proof -
  have one: "prefix (content s) (content (fst (snd (step sv n s h))))" for n s h
  proof (cases rule: step_cases [of sv n s h])
    case (raised e s1 h1)
    with step_Inl [OF raised] show ?thesis by simp
  next
    case (ended s1 h1)
    with step_Inr [OF ended] show ?thesis by (simp add: updated_def)
  next
    case (moved n1 s1 h1)
    with step_Inr [OF moved] show ?thesis by (simp add: updated_def)
  qed
  have run: "prefix (content s) (content (final_state (run_graph sv k n s h)))"
  proof (induction k arbitrary: n s h)
    case 0
    show ?case by simp
  next
    case (Suc k)
    show ?case
    proof (cases rule: step_cases [of sv n s h])
      case (raised e s1 h1)
      with one [of s n h] show ?thesis by simp
    next
      case (ended s1 h1)
      with one [of s n h] show ?thesis by simp
    next
      case (moved n1 s1 h1)
      from one [of s n h] moved have "prefix (content s) (content s1)" by simp
      moreover have "prefix (content s1) (content (final_state (run_graph sv k n1 s1 h1)))"
        by (rule Suc.IH)
      ultimately show ?thesis using moved by simp
    qed
  qed
  from one [of s n h] run show ?thesis by (simp add: prefix_length_le)
qed

theorem C5_content_grows_witness:
  "prefix (content ((start 1)\<lparr>content := [JStr (lit ''old'')]\<rparr>))
     (content (final_state
        (run_graph demo_services 25 planner ((start 1)\<lparr>content := [JStr (lit ''old'')]\<rparr>) [])))"
  using C5_content_grows [of "(start 1)\<lparr>content := [JStr (lit ''old'')]\<rparr>" demo_services planner "[]" 25]
  by simp

lemma node_function_keys:
  assumes "node_function n sv s h = (Inr u, s1, h1)"
  shows "map key_of u = keys_written n"
proof (cases n)
  case planner
  with assms plan_node_effect [of sv s h "Inr u" s1 h1] show ?thesis by auto
next
  case research_plan
  with assms research_plan_node_effect [of sv s h "Inr u" s1 h1] show ?thesis by auto
next
  case generate
  with assms generation_node_effect [of sv s h "Inr u" s1 h1] show ?thesis by auto
next
  case reflect
  with assms reflection_node_effect [of sv s h "Inr u" s1 h1] show ?thesis by auto
next
  case research_critique
  with assms research_critique_node_effect [of sv s h "Inr u" s1 h1] show ?thesis by auto
qed

text \<open>
  C9. No stage changes \<open>task\<close> or \<open>max_revisions\<close>: the state a stage leaves behind has
  them unchanged, the dict it returns holds neither key, and the state after the dict
  was written has them unchanged.
\<close>

theorem C9_frame:
  assumes "node_function n sv s h = (r, s1, h1)"
  shows "task s1 = task s \<and> max_revisions s1 = max_revisions s \<and>
         (\<forall>u. r = Inr u \<longrightarrow>
            map key_of u = keys_written n \<and>
            ''task'' \<notin> set (map key_of u) \<and> ''max_revisions'' \<notin> set (map key_of u) \<and>
            task (apply_update s1 u) = task s \<and>
            max_revisions (apply_update s1 u) = max_revisions s)"
proof -
  from node_function_effect [OF assms] have k: "kept s s1"
    and u: "\<forall>u. r = Inr u \<longrightarrow> updated n s (apply_update s1 u)" by simp_all
  have "map key_of u = keys_written n" if "r = Inr u" for u
    using assms that node_function_keys by simp
  moreover have "''task'' \<notin> set (keys_written n)" "''max_revisions'' \<notin> set (keys_written n)"
    by (cases n; simp)+
  ultimately show ?thesis using k u by (simp add: kept_def updated_def)
qed

theorem C9_frame_witness:
  "task (apply_update (start 0) [Set_plan (JStr demo_text)]) = lit ''Remote work'' \<and>
   max_revisions (apply_update (start 0) [Set_plan (JStr demo_text)]) = 0"
proof -
  have p: "node_function planner demo_services (start 0) [] =
     (Inr [Set_plan (JStr demo_text)], start 0,
      [MistralPost (build_prompt demo_services
         [(lit ''system'', JStr PLAN_PROMPT), (lit ''user'', JStr (lit ''Remote work''))])])"
    by (simp add: plan_node_def call_mistral_api_def demo_services_def demo_post_def
        choice_text_def start_def)
  show ?thesis
    using C9_frame [OF p] by (simp add: start_def)
qed

subsection \<open>Queries and the console\<close>

lemma split_lines_nonempty: "split_lines t \<noteq> []"
  by (induction t) (auto split: list.splits)

lemma join_first: "join sep ((c # l) # ls) = c # join sep (l # ls)"
  by (cases ls) simp_all

lemma join_empty_first: "ls \<noteq> [] \<Longrightarrow> join sep ([] # ls) = sep @ join sep ls"
  by (cases ls) simp_all

lemma split_lines_join: "join [0x0A] (split_lines t) = t"
proof (induction t)
  case Nil
  show ?case by simp
next
  case (Cons c cs)
  show ?case
  proof (cases "c = 0x0A")
    case True
    with Cons split_lines_nonempty [of cs] show ?thesis by (simp add: join_empty_first)
  next
    case False
    obtain l ls where "split_lines cs = l # ls"
      using split_lines_nonempty [of cs] by (cases "split_lines cs") auto
    with Cons False show ?thesis by (simp add: join_first)
  qed
qed

lemma split_lines_no_break: "l \<in> set (split_lines t) \<Longrightarrow> 0x0A \<notin> set l"
proof (induction t arbitrary: l)
  case Nil
  then show ?case by simp
next
  case (Cons c cs)
  show ?case
  proof (cases "c = 0x0A")
    case True
    with Cons show ?thesis by auto
  next
    case False
    obtain k ks where s: "split_lines cs = k # ks"
      using split_lines_nonempty [of cs] by (cases "split_lines cs") auto
    with Cons.prems False have "l = c # k \<or> l \<in> set ks" by auto
    with Cons.IH [of k] Cons.IH [of l] s False show ?thesis by auto
  qed
qed

lemma strip_parts:
  "\<exists>a b. l = a @ strip l @ b \<and> (\<forall>c\<in>set a. isspace c) \<and> (\<forall>c\<in>set b. isspace c)"
proof -
  let ?d = "dropWhile isspace l"
  have "l = takeWhile isspace l @ ?d" by simp
  moreover have "rev ?d = takeWhile isspace (rev ?d) @ dropWhile isspace (rev ?d)" by simp
  then have "?d = rev (dropWhile isspace (rev ?d)) @ rev (takeWhile isspace (rev ?d))"
    by (metis rev_append rev_rev_ident)
  ultimately have "l = takeWhile isspace l @ strip l @ rev (takeWhile isspace (rev ?d))"
    by (simp add: strip_def)
  moreover have "\<forall>c\<in>set (takeWhile isspace l). isspace c"
    by (auto dest: set_takeWhileD)
  moreover have "\<forall>c\<in>set (rev (takeWhile isspace (rev ?d))). isspace c"
    by (auto dest: set_takeWhileD)
  ultimately show ?thesis by blast
qed

lemma last_dropWhile: "dropWhile P xs \<noteq> [] \<Longrightarrow> last (dropWhile P xs) = last xs"
  by (induction xs) (auto split: if_splits)

lemma strip_ends:
  assumes "strip l \<noteq> []"
  shows "\<not> isspace (hd (strip l)) \<and> \<not> isspace (last (strip l))"
proof -
  let ?d = "dropWhile isspace l"
  let ?e = "dropWhile isspace (rev ?d)"
  from assms have e: "?e \<noteq> []" by (simp add: strip_def)
  have d: "?d \<noteq> []"
  proof
    assume "?d = []"
    with e show False by simp
  qed
  have "last (strip l) = hd ?e" using e by (simp add: strip_def last_rev)
  moreover have "\<not> isspace (hd ?e)" using e by (rule hd_dropWhile)
  moreover have "hd (strip l) = last ?e" using e by (simp add: strip_def hd_rev)
  moreover have "last ?e = last (rev ?d)" using e by (rule last_dropWhile)
  moreover have "last (rev ?d) = hd ?d" using d by (simp add: last_rev)
  moreover have "\<not> isspace (hd ?d)" using d by (rule hd_dropWhile)
  ultimately show ?thesis by simp
qed

lemma strip_subset: "set (strip l) \<subseteq> set l"
  by (auto simp: strip_def dest!: set_dropWhileD)

lemma strip_blank: "(\<forall>c\<in>set s. isspace c) \<Longrightarrow> strip s = []"
proof -
  assume "\<forall>c\<in>set s. isspace c"
  then have d: "dropWhile isspace s = []" by (induction s) simp_all
  show ?thesis unfolding strip_def d by simp
qed

lemma trimmed_lines_queries:
  assumes "q \<in> set (trimmed_lines t)"
  shows "q \<noteq> [] \<and> 0x0A \<notin> set q \<and> \<not> isspace (hd q) \<and> \<not> isspace (last q)"
proof -
  from assms obtain l where l: "l \<in> set (split_lines t)" and q: "q = strip l" and ne: "q \<noteq> []"
    by (auto simp: trimmed_lines_def)
  from split_lines_no_break [OF l] strip_subset [of l] q have "0x0A \<notin> set q" by auto
  with ne q strip_ends [of l] show ?thesis by simp
qed

lemma research_answered:
  assumes "n = research_plan \<or> n = research_critique"
    and "stage_prompt sv n s = Inr p"
    and "requests_post sv h p = Inr resp" and "choice_text resp = Inr (JStr t)"
    and "search_queries sv (take 3 (trimmed_lines t)) (content s) (h @ [MistralPost p])
           = (raised, found, h2)"
  shows "node_function n sv s h =
           (case raised of Some e \<Rightarrow> Inl e | None \<Rightarrow> Inr [Set_content found],
            if content s \<noteq> [] then s\<lparr>content := found\<rparr> else s, h2)"
proof -
  have pq: "parse_queries (JStr t) = Inr (trimmed_lines t)"
    by (simp add: parse_queries_def trimmed_lines_def filter_map comp_def)
  from assms(1) show ?thesis
  proof
    assume n: "n = research_plan"
    with assms(2-5) pq show ?thesis
      by (simp add: research_plan_node_def call_mistral_api_def Let_def or_empty)
  next
    assume n: "n = research_critique"
    with assms(2-5) pq show ?thesis
      by (simp add: research_critique_node_def call_mistral_api_def Let_def or_empty)
  qed
qed

text \<open>
  C6. In both research stages, when the completion answers the stage's prompt with the
  text \<open>t\<close>: the queries are the trimmed, non-empty lines of \<open>t\<close>, where the lines are the
  pieces of \<open>t\<close> between line feeds, trimming removes white space at both ends and
  nothing else, and so no query is empty, holds a line feed, or begins or ends with
  white space; the stage searches queries among the first three only, in order and
  each with \<open>max_results = 2\<close>, and all of the first three when it returns an update;
  and when \<open>t\<close> has no such line, the stage returns the \<open>content\<close> it found, leaves the
  state as it was and has made no search at all.
\<close>

theorem C6_queries:
  assumes "n = research_plan \<or> n = research_critique"
    and "stage_prompt sv n s = Inr p"
    and "requests_post sv h p = Inr resp" and "choice_text resp = Inr (JStr t)"
  shows "parse_queries (JStr t) = Inr (trimmed_lines t)
       \<and> join [0x0A] (split_lines t) = t
       \<and> (\<forall>l\<in>set (split_lines t). 0x0A \<notin> set l)
       \<and> (\<forall>l. \<exists>a b. l = a @ strip l @ b \<and> (\<forall>c\<in>set a. isspace c) \<and> (\<forall>c\<in>set b. isspace c))
       \<and> (\<forall>q\<in>set (trimmed_lines t).
             q \<noteq> [] \<and> 0x0A \<notin> set q \<and> \<not> isspace (hd q) \<and> \<not> isspace (last q))
       \<and> (\<exists>r s1 h1. node_function n sv s h = (r, s1, h1) \<and>
             prefix (searched h) (searched h1) \<and>
             prefix (searched h1)
               (searched h @ map (\<lambda>q. (q, 2)) (take 3 (trimmed_lines t))) \<and>
             ((\<exists>u. r = Inr u) \<longrightarrow>
                searched h1 = searched h @ map (\<lambda>q. (q, 2)) (take 3 (trimmed_lines t))))
       \<and> (trimmed_lines t = [] \<longrightarrow>
             node_function n sv s h = (Inr [Set_content (content s)], s, h @ [MistralPost p]))"
proof -
  let ?qs = "take 3 (trimmed_lines t)"
  have a: "parse_queries (JStr t) = Inr (trimmed_lines t)"
    by (simp add: parse_queries_def trimmed_lines_def filter_map comp_def)
  obtain raised found h2 where
    sq: "search_queries sv ?qs (content s) (h @ [MistralPost p]) = (raised, found, h2)"
    by (cases "search_queries sv ?qs (content s) (h @ [MistralPost p])")
  note nf = research_answered [OF assms sq]
  from search_queries_searched [OF sq] obtain j where j: "j \<le> length ?qs"
    "searched h2 = searched (h @ [MistralPost p]) @ map (\<lambda>q. (q, 2)) (take j ?qs)"
    "raised = None \<longrightarrow> j = length ?qs" by blast
  from j(2) have s2: "searched h2 = searched h @ map (\<lambda>q. (q, 2)) (take j ?qs)"
    by (simp add: searched_append)
  have "prefix (take j ?qs) ?qs" by (rule take_is_prefix)
  then have "prefix (map (\<lambda>q. (q, 2::int)) (take j ?qs)) (map (\<lambda>q. (q, 2)) ?qs)"
    by (rule map_mono_prefix)
  with s2 have p2: "prefix (searched h2) (searched h @ map (\<lambda>q. (q, 2)) ?qs)" by simp
  from s2 have p1: "prefix (searched h) (searched h2)" by simp
  have full: "searched h2 = searched h @ map (\<lambda>q. (q, 2)) ?qs" if "raised = None"
  proof -
    from that j(3) have "j = length ?qs" by blast
    moreover have "take (length ?qs) ?qs = ?qs" by (rule take_all) (rule order_refl)
    ultimately have "take j ?qs = ?qs" by (simp only:)
    with s2 show ?thesis by (simp only:)
  qed
  have b: "\<exists>r s1 h1. node_function n sv s h = (r, s1, h1) \<and>
             prefix (searched h) (searched h1) \<and>
             prefix (searched h1) (searched h @ map (\<lambda>q. (q, 2)) ?qs) \<and>
             ((\<exists>u. r = Inr u) \<longrightarrow> searched h1 = searched h @ map (\<lambda>q. (q, 2)) ?qs)"
  proof (cases raised)
    case None
    with nf p1 p2 full show ?thesis by simp
  next
    case (Some e)
    with nf p1 p2 show ?thesis by simp
  qed
  have c: "node_function n sv s h = (Inr [Set_content (content s)], s, h @ [MistralPost p])"
    if "trimmed_lines t = []"
  proof -
    from that sq have "raised = None" "found = content s" "h2 = h @ [MistralPost p]" by simp_all
    with nf show ?thesis by simp
  qed
  from a b c split_lines_join [of t] split_lines_no_break [of _ t] strip_parts
    trimmed_lines_queries [of _ t]
  show ?thesis by blast
qed

lemma demo_choice:
  "choice_text (JObj [(lit ''choices'', JArr [JObj [(lit ''text'', JStr demo_text)]])])
     = Inr (JStr demo_text)"
  by (simp add: choice_text_def)

lemma demo_lines:
  "trimmed_lines demo_text = [lit ''one'', lit ''two'', lit ''three'', lit ''four'', lit ''five'']"
  by (simp add: trimmed_lines_def demo_text_def lit_def strip_def isspace_def)

theorem C6_queries_witness:
  "parse_queries (JStr demo_text) =
     Inr [lit ''one'', lit ''two'', lit ''three'', lit ''four'', lit ''five''] \<and>
   searched (snd (snd (node_function research_critique demo_services (start 1) []))) =
     [(lit ''one'', 2), (lit ''two'', 2), (lit ''three'', 2)]"
proof -
  have "list_all is_text (content (start 1))" by (simp add: start_def)
  from node_function_quiet [OF quiet_demo this, of research_critique "[]"]
  obtain u s1 h1 where
    nf: "node_function research_critique demo_services (start 1) [] = (Inr u, s1, h1)" by blast
  from C6_queries [of research_critique demo_services "start 1"
      "build_prompt demo_services
         [(lit ''system'', JStr RESEARCH_CRITIQUE_PROMPT), (lit ''user'', critique (start 1))]"
      "[]" "JObj [(lit ''choices'', JArr [JObj [(lit ''text'', JStr demo_text)]])]" demo_text]
    demo_choice nf
  show ?thesis
    by (auto simp: demo_lines demo_services_def demo_post_def)
qed

text \<open>
  C8, as stated, fails: on a topic of white space \<^verbatim>\<open>main\<close> raises nothing. It prints its
  message and returns.
\<close>

theorem C8_blank_topic_counterexample:
  "main demo_services [0x20, 0xA0, 0x3000] [] =
     (Printed [lit ''Error: Essay topic cannot be empty.''], [])"
  by (simp add: main_def strip_def isspace_def)

text \<open>
  C8, amended. When the line typed is empty or consists of white space only, \<^verbatim>\<open>main\<close>
  prints \<^verbatim>\<open>Error: Essay topic cannot be empty.\<close> and returns: the history is unchanged,
  so no stage was entered, no service was asked, and \<^verbatim>\<open>graph.invoke\<close> was never given a
  state.
\<close>

theorem C8_blank_topic:
  assumes "\<forall>c\<in>set typed. isspace c"
  shows "main sv typed h = (Printed [lit ''Error: Essay topic cannot be empty.''], h)"
  using assms by (simp add: main_def strip_blank)

theorem C8_blank_topic_witness:
  "main demo_services [] [] = (Printed [lit ''Error: Essay topic cannot be empty.''], []) \<and>
   main mute_services [0x09, 0x0A, 0x85, 0x2003] [] =
     (Printed [lit ''Error: Essay topic cannot be empty.''], [])"
  using C8_blank_topic [of "[]" demo_services "[]"]
    C8_blank_topic [of "[0x09, 0x0A, 0x85, 0x2003]" mute_services "[]"]
  by (simp add: isspace_def)

end
